theory Spec2Isabelle
  imports Complex_Main "HOL-Library.Multiset" "HOL-Library.Product_Lexorder"
begin

section \<open>Data model of compare_assemblies.py\<close>

text \<open>
  The categories of \<^verbatim>\<open>assemblyline.lib.base.Category\<close> that
  \<^verbatim>\<open>compare_assemblies.py\<close> names.

  Modelled from the spec: the module \<^verbatim>\<open>assemblyline.lib.base\<close> that declares
  \<^verbatim>\<open>Category\<close> and \<^verbatim>\<open>Category.to_str\<close>. The spec calls it a closed
  enumeration; a record's \<^verbatim>\<open>category\<close> field holds a member of it, and the
  tests \<^verbatim>\<open>m.category == Category.X\<close> are equality of members
  (\<^verbatim>\<open>to_str\<close> is the rendering of a member and is not modelled apart).
\<close>

datatype category =
    SAME_STRAND | OPP_STRAND
  | INTRONIC_SAME_STRAND | INTRONIC_OPP_STRAND
  | INTERLEAVING_SAME_STRAND | INTERLEAVING_OPP_STRAND
  | ENCOMPASSING_SAME_STRAND | ENCOMPASSING_OPP_STRAND
  | INTERGENIC | READ_THROUGH

text \<open>The exceptions the modelled code can raise.\<close>

datatype error = AssertionError | ZeroDivisionError | KeyError | IndexError

text \<open>
  Strands are the integers of \<^verbatim>\<open>assemblyline.lib.transcript\<close>; a locus string
  \<^verbatim>\<open>'%s:%d-%d[%s]'\<close> is kept as the tuple of its four arguments.
\<close>

type_synonym strand = int
type_synonym locus_str = "string \<times> int \<times> int \<times> strand"

text \<open>
  \<^verbatim>\<open>class MatchStats\<close>: one attribute per entry of \<^verbatim>\<open>header_fields()\<close>.
  Every producer that hands a record to \<^verbatim>\<open>choose_best\<close> assigns all of them
  first, so the fields carry values rather than \<^verbatim>\<open>None\<close>.
\<close>

record MatchStats =
  transcript_id :: string
  gene_id :: string
  locus :: locus_str
  length_m :: int
  num_introns :: int
  ref_transcript_id :: string
  ref_gene_id :: string
  ref_orig_gene_id :: string
  ref_gene_name :: string
  ref_source :: string
  ref_gene_type :: string
  ref_locus :: locus_str
  ref_length :: int
  ref_num_introns :: int
  shared_same_strand_bp :: int
  shared_opp_strand_bp :: int
  shared_introns :: int
  shared_splicing :: bool
  distance :: int
  category :: category

text \<open>
  \<^verbatim>\<open>MatchStats\<close> objects are mutable and shared: \<^verbatim>\<open>choose_best\<close> assigns
  to the \<^verbatim>\<open>category\<close> attribute of an object that its caller still holds in
  \<^verbatim>\<open>match_stats\<close>. Objects therefore live in a store, and lists hold their
  addresses. The address also is the identity Python 2 compares two instances by
  when a class defines no comparison of its own.
\<close>

type_synonym addr = nat
type_synonym heap = "addr \<Rightarrow> MatchStats"

section \<open>MatchStats.choose_best\<close>

text \<open>
  \<^verbatim>\<open>float(a) / b\<close>: raises on a zero divisor, and otherwise is the double
  nearest to the quotient. The doubles are not modelled: the rounding division
  \<open>fdiv\<close> is a parameter, a function from two integers into any linearly ordered
  type, so that what is proved holds of the division of doubles too (the integers
  of a record are taken to lie in the range of the doubles, as coordinates do).
\<close>

definition float_div :: "(int \<Rightarrow> int \<Rightarrow> 'f) \<Rightarrow> int \<Rightarrow> int \<Rightarrow> error + 'f" where
  "float_div fdiv a b = (if b = 0 then Inl ZeroDivisionError else Inr (fdiv a b))"

text \<open>
  One element of \<^verbatim>\<open>hits\<close>: the twelve ranking numbers and, last, the record
  itself (its address).
\<close>

type_synonym 'f rank =
  "int \<times> 'f \<times> 'f \<times> 'f \<times> int \<times> int \<times> int \<times> int \<times> int \<times> int \<times> int \<times> int"
type_synonym 'f hit = "'f rank \<times> addr"

text \<open>
  Lines 108-114: the three fractions of one candidate (\<^verbatim>\<open>0.0\<close> is
  \<open>fdiv 0 1\<close>).
\<close>

definition intron_frac :: "(int \<Rightarrow> int \<Rightarrow> 'f) \<Rightarrow> MatchStats \<Rightarrow> error + 'f" where
  "intron_frac fdiv m =
     (let total_introns = num_introns m + ref_num_introns m in
      if total_introns = 0 then Inr (fdiv 0 1)
      else float_div fdiv (shared_introns m) (total_introns - shared_introns m))"

definition same_strand_frac :: "(int \<Rightarrow> int \<Rightarrow> 'f) \<Rightarrow> MatchStats \<Rightarrow> error + 'f" where
  "same_strand_frac fdiv m =
     float_div fdiv (shared_same_strand_bp m)
       (length_m m + ref_length m - shared_same_strand_bp m)"

definition opp_strand_frac :: "(int \<Rightarrow> int \<Rightarrow> 'f) \<Rightarrow> MatchStats \<Rightarrow> error + 'f" where
  "opp_strand_frac fdiv m =
     float_div fdiv (shared_opp_strand_bp m)
       (length_m m + ref_length m - shared_opp_strand_bp m)"

text \<open>Lines 115-124: the tuple appended to \<^verbatim>\<open>hits\<close> for the object at \<open>a\<close>.\<close>

definition hit_of :: "(int \<Rightarrow> int \<Rightarrow> 'f) \<Rightarrow> heap \<Rightarrow> addr \<Rightarrow> error + 'f hit" where
  "hit_of fdiv h a =
     (let m = h a in
      case intron_frac fdiv m of Inl e \<Rightarrow> Inl e | Inr fi \<Rightarrow>
      case same_strand_frac fdiv m of Inl e \<Rightarrow> Inl e | Inr fs \<Rightarrow>
      case opp_strand_frac fdiv m of Inl e \<Rightarrow> Inl e | Inr fo \<Rightarrow>
      Inr ((of_bool (shared_splicing m), fi, fs, fo,
            of_bool (category m = INTRONIC_SAME_STRAND),
            of_bool (category m = INTRONIC_OPP_STRAND),
            of_bool (category m = INTERLEAVING_SAME_STRAND),
            of_bool (category m = INTERLEAVING_OPP_STRAND),
            of_bool (category m = ENCOMPASSING_SAME_STRAND),
            of_bool (category m = ENCOMPASSING_OPP_STRAND),
            of_bool (category m = INTERGENIC),
            - \<bar>distance m\<bar>), a))"

text \<open>
  Lines 107-128: the loop over \<^verbatim>\<open>lst\<close>, with its two accumulators
  \<^verbatim>\<open>hits\<close> and \<^verbatim>\<open>same_strand_gene_ids\<close>.
\<close>

fun collect_hits ::
  "(int \<Rightarrow> int \<Rightarrow> 'f) \<Rightarrow> heap \<Rightarrow> addr list \<Rightarrow> 'f hit list \<Rightarrow> string set
     \<Rightarrow> error + ('f hit list \<times> string set)" where
  "collect_hits fdiv h [] hits ids = Inr (hits, ids)"
| "collect_hits fdiv h (a # lst) hits ids =
     (case hit_of fdiv h a of
        Inl e \<Rightarrow> Inl e
      | Inr k \<Rightarrow>
          collect_hits fdiv h lst (hits @ [k])
            (if category (h a) = SAME_STRAND then insert (ref_gene_id (h a)) ids else ids))"

text \<open>
  \<^verbatim>\<open>hits.sort(reverse=True)\<close>: tuples are compared lexicographically, and two
  tuples that compare equal are the same tuple (the last component is the object),
  so the descending order is the reverse of the ascending one.
\<close>

definition sort_reverse :: "('f::linorder) hit list \<Rightarrow> 'f hit list" where
  "sort_reverse hits = rev (sort hits)"

text \<open>
  Lines 102-134. The result is the chosen object (\<^verbatim>\<open>None\<close> for an empty list)
  and the store after the assignment of line 133.
\<close>

definition choose_best ::
  "(int \<Rightarrow> int \<Rightarrow> 'f::linorder) \<Rightarrow> heap \<Rightarrow> addr list \<Rightarrow> error + (addr option \<times> heap)" where
  "choose_best fdiv h lst =
     (if length lst = 0 then Inr (None, h)
      else
        case collect_hits fdiv h lst [] {} of
          Inl e \<Rightarrow> Inl e
        | Inr (hits, same_strand_gene_ids) \<Rightarrow>
            (case sort_reverse hits of
               [] \<Rightarrow> Inl IndexError
             | first # _ \<Rightarrow>
                 let hit = snd first in
                 if category (h hit) = SAME_STRAND \<and> card same_strand_gene_ids > 1
                 then Inr (Some hit, h(hit := (h hit)\<lparr>category := READ_THROUGH\<rparr>))
                 else Inr (Some hit, h)))"

section \<open>Transcripts, nodes and introns\<close>

type_synonym exon = "int \<times> int"
type_synonym node = "int \<times> int"
type_synonym intron = "strand \<times> int \<times> int"

text \<open>
  A transcript as \<^verbatim>\<open>parse_gtf\<close> hands it over: the coordinates, the exon
  list and the entries of \<^verbatim>\<open>t.attrs\<close> that the comparison reads
  (\<^verbatim>\<open>attr_ref\<close> is \<^verbatim>\<open>bool(int(t.attrs[GTFAttr.REF]))\<close>).
\<close>

record Transcript =
  t_chrom :: string
  t_start :: int
  t_end :: int
  t_strand :: strand
  t_exons :: "exon list"
  attr_ref :: bool
  attr_transcript_id :: string
  attr_gene_id :: string
  attr_orig_gene_id :: "string option"
  attr_gene_name :: string
  attr_source :: string
  attr_gene_type :: string

text \<open>
  Modelled from the spec: the property \<^verbatim>\<open>Transcript.length\<close> of
  \<^verbatim>\<open>assemblyline.lib.transcript\<close>, "length (sum of exon spans)".
\<close>

definition t_length :: "Transcript \<Rightarrow> int" where
  "t_length t = sum_list (map (\<lambda>(s, e). e - s) (t_exons t))"

text \<open>
  Modelled from the spec: the method \<^verbatim>\<open>Transcript.iterintrons\<close> of
  \<^verbatim>\<open>assemblyline.lib.transcript\<close>, the "derived intron list (gaps between
  consecutive exons)" as (start, end) pairs.
\<close>

fun exon_gaps :: "exon list \<Rightarrow> (int \<times> int) list" where
  "exon_gaps (e1 # e2 # es) = (snd e1, fst e2) # exon_gaps (e2 # es)"
| "exon_gaps es = []"

definition iterintrons :: "Transcript \<Rightarrow> (int \<times> int) list" where
  "iterintrons t = exon_gaps (t_exons t)"

text \<open>
  Modelled from the spec: \<^verbatim>\<open>find_exon_boundaries\<close> of
  \<^verbatim>\<open>assemblyline.lib.assemble.transcript_graph\<close> (section 4.2): "the set of all
  distinct exon start/end coordinates across every transcript in the locus; sort
  ascending".
\<close>

definition find_exon_boundaries :: "Transcript list \<Rightarrow> int list" where
  "find_exon_boundaries transcripts =
     sort (remdups (concat (map (\<lambda>t. concat (map (\<lambda>(s, e). [s, e]) (t_exons t))) transcripts)))"

text \<open>
  Modelled from the spec: \<^verbatim>\<open>split_exons\<close> of
  \<^verbatim>\<open>assemblyline.lib.assemble.transcript_graph\<close> (section 4.2): "split an exon
  at every boundary coordinate strictly inside it, producing a consecutive run of
  non-overlapping child intervals that exactly covers the exon".
\<close>

definition split_exon :: "exon \<Rightarrow> int list \<Rightarrow> node list" where
  "split_exon ex boundaries =
     (let pts = fst ex # filter (\<lambda>b. fst ex < b \<and> b < snd ex) boundaries @ [snd ex]
      in zip pts (tl pts))"

definition split_exons :: "Transcript \<Rightarrow> int list \<Rightarrow> node list" where
  "split_exons t boundaries = concat (map (\<lambda>ex. split_exon ex boundaries) (t_exons t))"

section \<open>Dictionaries and interval trees\<close>

text \<open>
  \<^verbatim>\<open>collections.defaultdict(lambda: [])\<close> filled by
  \<^verbatim>\<open>d[k].append(v)\<close>: an association list with one entry per key, the keys
  in the order of their first insertion (the order in which Python 2 iterates a
  dictionary is not specified; nothing proved below depends on it).
\<close>

type_synonym ('k, 'v) listdict = "('k \<times> 'v list) list"

fun dict_append :: "('k, 'v) listdict \<Rightarrow> 'k \<times> 'v \<Rightarrow> ('k, 'v) listdict" where
  "dict_append [] (k, v) = [(k, [v])]"
| "dict_append ((k', vs) # d) (k, v) =
     (if k' = k then (k', vs @ [v]) # d else (k', vs) # dict_append d (k, v))"

definition dict_of :: "('k \<times> 'v) list \<Rightarrow> ('k, 'v) listdict" where
  "dict_of kvs = foldl dict_append [] kvs"

text \<open>
  Modelled from the spec: \<^verbatim>\<open>Interval\<close> and \<^verbatim>\<open>IntervalTree\<close> of
  \<^verbatim>\<open>assemblyline.lib.bx.intersection\<close>. A tree is the list of the intervals
  inserted; \<^verbatim>\<open>find(start, end)\<close> returns those "whose interval overlaps" the
  query, "any overlap, not exact" (section 4.4), on half-open intervals.
\<close>

record ('s, 'v) Interval =
  i_start :: int
  i_end :: int
  i_strand :: 's
  i_value :: 'v

type_synonym ('s, 'v) IntervalTree = "('s, 'v) Interval list"

definition tree_find :: "('s, 'v) IntervalTree \<Rightarrow> int \<Rightarrow> int \<Rightarrow> ('s, 'v) Interval list" where
  "tree_find tree s e = filter (\<lambda>iv. i_start iv < e \<and> s < i_end iv) tree"

section \<open>compare_locus\<close>

text \<open>Lines 139-172: the reference indexes of one locus.\<close>

definition intron_list :: "Transcript \<Rightarrow> intron list" where
  "intron_list t = map (\<lambda>(s, e). (t_strand t, s, e)) (iterintrons t)"

definition ref_node_dict :: "Transcript list \<Rightarrow> int list \<Rightarrow> (node, Transcript) listdict" where
  "ref_node_dict refs boundaries =
     dict_of (concat (map (\<lambda>t. map (\<lambda>n. (n, t)) (split_exons t boundaries)) refs))"

definition ref_intron_dict :: "Transcript list \<Rightarrow> (intron, Transcript) listdict" where
  "ref_intron_dict refs =
     dict_of (concat (map (\<lambda>t. map (\<lambda>i. (i, t)) (intron_list t)) refs))"

definition ref_splicing_patterns :: "Transcript list \<Rightarrow> (intron list, Transcript) listdict" where
  "ref_splicing_patterns refs =
     dict_of (concat (map (\<lambda>t. if length (intron_list t) > 0 then [(intron_list t, t)] else []) refs))"

text \<open>\<^verbatim>\<open>ref_dict[ref_id] = t\<close>: a later transcript with the same id replaces an earlier one.\<close>

definition ref_dict :: "Transcript list \<Rightarrow> (string \<rightharpoonup> Transcript)" where
  "ref_dict refs = map_of (rev (map (\<lambda>t. (attr_transcript_id t, t)) refs))"

definition intron_tree :: "Transcript list \<Rightarrow> (strand, Transcript list) IntervalTree" where
  "intron_tree refs =
     map (\<lambda>((strand, s, e), rs). \<lparr>i_start = s, i_end = e, i_strand = strand, i_value = rs\<rparr>)
       (ref_intron_dict refs)"

text \<open>\<^verbatim>\<open>class Match\<close>; \<^verbatim>\<open>nodes\<close> is a defaultdict from category to list.\<close>

record Match =
  m_nodes :: "category \<Rightarrow> node list"
  m_introns :: "intron list"
  m_splicing :: bool

definition Match_init :: Match where
  "Match_init = \<lparr>m_nodes = (\<lambda>_. []), m_introns = [], m_splicing = False\<rparr>"

text \<open>
  The three statements that change an accumulator:
  \<^verbatim>\<open>m.nodes[c].append(n)\<close>, \<^verbatim>\<open>m.introns.append(intron)\<close> and
  \<^verbatim>\<open>m.splicing = True\<close>, each preceded by \<^verbatim>\<open>m = matches[ref_id]\<close>, which
  creates the accumulator when the key is new.
\<close>

datatype update = NodesAppend category node | IntronsAppend intron | SplicingTrue

fun apply_update :: "update \<Rightarrow> Match \<Rightarrow> Match" where
  "apply_update (NodesAppend c n) m = m\<lparr>m_nodes := (m_nodes m)(c := m_nodes m c @ [n])\<rparr>"
| "apply_update (IntronsAppend i) m = m\<lparr>m_introns := m_introns m @ [i]\<rparr>"
| "apply_update SplicingTrue m = m\<lparr>m_splicing := True\<rparr>"

fun matches_apply :: "(string \<times> Match) list \<Rightarrow> string \<times> update \<Rightarrow> (string \<times> Match) list" where
  "matches_apply [] (r, u) = [(r, apply_update u Match_init)]"
| "matches_apply ((r', m) # ms) (r, u) =
     (if r' = r then (r', apply_update u m) # ms else (r', m) # matches_apply ms (r, u))"

text \<open>
  Lines 184-204, for one node \<open>n\<close> of the test transcript: the updates of the
  exact-node lookup, then those of the intron tree query. The strand comparison
  \<^verbatim>\<open>cmp_strand\<close> of \<^verbatim>\<open>assemblyline.lib.transcript\<close> is a parameter.
\<close>

definition node_updates ::
  "(strand \<Rightarrow> strand \<Rightarrow> bool) \<Rightarrow> Transcript \<Rightarrow> Transcript list \<Rightarrow> int list \<Rightarrow> node
     \<Rightarrow> (string \<times> update) list" where
  "node_updates cmp_strand t refs boundaries n =
     (case map_of (ref_node_dict refs boundaries) n of
        None \<Rightarrow> []
      | Some rs \<Rightarrow>
          map (\<lambda>ref. (attr_transcript_id ref,
                 NodesAppend (if cmp_strand (t_strand t) (t_strand ref)
                              then SAME_STRAND else OPP_STRAND) n)) rs)
     @ concat (map (\<lambda>hit.
          map (\<lambda>ref. (attr_transcript_id ref,
                 NodesAppend (if cmp_strand (t_strand t) (i_strand hit)
                              then INTRONIC_SAME_STRAND else INTRONIC_OPP_STRAND) n))
            (i_value hit))
        (tree_find (intron_tree refs) (fst n) (snd n)))"

text \<open>Lines 206-211.\<close>

definition intron_updates :: "Transcript \<Rightarrow> Transcript list \<Rightarrow> (string \<times> update) list" where
  "intron_updates t refs =
     concat (map (\<lambda>intron.
        case map_of (ref_intron_dict refs) intron of
          None \<Rightarrow> []
        | Some rs \<Rightarrow> map (\<lambda>ref. (attr_transcript_id ref, IntronsAppend intron)) rs)
      (intron_list t))"

text \<open>Lines 213-218.\<close>

definition splicing_updates :: "Transcript \<Rightarrow> Transcript list \<Rightarrow> (string \<times> update) list" where
  "splicing_updates t refs =
     (if length (intron_list t) > 0 then
        (case map_of (ref_splicing_patterns refs) (intron_list t) of
           None \<Rightarrow> []
         | Some rs \<Rightarrow> map (\<lambda>ref. (attr_transcript_id ref, SplicingTrue)) rs)
      else [])"

text \<open>Lines 182-218: \<^verbatim>\<open>matches\<close> once the three scans of \<open>t\<close> are done.\<close>

definition all_updates ::
  "(strand \<Rightarrow> strand \<Rightarrow> bool) \<Rightarrow> Transcript \<Rightarrow> Transcript list \<Rightarrow> int list
     \<Rightarrow> (string \<times> update) list" where
  "all_updates cmp_strand t refs boundaries =
     concat (map (node_updates cmp_strand t refs boundaries) (split_exons t boundaries))
     @ intron_updates t refs @ splicing_updates t refs"

definition matches_of ::
  "(strand \<Rightarrow> strand \<Rightarrow> bool) \<Rightarrow> Transcript \<Rightarrow> Transcript list \<Rightarrow> int list
     \<Rightarrow> (string \<times> Match) list" where
  "matches_of cmp_strand t refs boundaries =
     foldl matches_apply [] (all_updates cmp_strand t refs boundaries)"

text \<open>Lines 225-226: the bases covered by a list of nodes.\<close>

definition node_bp :: "node list \<Rightarrow> int" where
  "node_bp ns = sum_list (map (\<lambda>n. snd n - fst n) ns)"

text \<open>
  Lines 225-258: the category of one (test, reference) pair, from the accumulator
  \<open>m\<close> of the reference and the node list of the test transcript. Each
  \<^verbatim>\<open>assert\<close> is a branch that raises.
\<close>

definition decide_category :: "Match \<Rightarrow> node list \<Rightarrow> error + category" where
  "decide_category m nodes =
     (let same_strand_bp = node_bp (m_nodes m SAME_STRAND);
          opp_strand_bp = node_bp (m_nodes m OPP_STRAND);
          num_shared_introns = length (m_introns m)
      in
      if m_splicing m \<or> num_shared_introns > 0 \<or> same_strand_bp > 0 then Inr SAME_STRAND
      else if opp_strand_bp > 0 then Inr OPP_STRAND
      else
        let num_same_strand = length (m_nodes m SAME_STRAND);
            num_opp_strand = length (m_nodes m OPP_STRAND);
            num_intronic_same_strand = length (m_nodes m INTRONIC_SAME_STRAND);
            num_intronic_opp_strand = length (m_nodes m INTRONIC_OPP_STRAND)
        in
        if num_same_strand \<noteq> 0 then Inl AssertionError
        else if num_opp_strand \<noteq> 0 then Inl AssertionError
        else
          let num_intronic = num_intronic_same_strand + num_intronic_opp_strand in
          if \<not> num_intronic > 0 then Inl AssertionError
          else if num_intronic = length nodes then
            (if num_intronic_same_strand > 0 then Inr INTRONIC_SAME_STRAND
             else Inr INTRONIC_OPP_STRAND)
          else
            (if num_intronic_same_strand > 0 then Inr INTERLEAVING_SAME_STRAND
             else Inr INTERLEAVING_OPP_STRAND))"

text \<open>
  Lines 82-99 and 260-266: \<^verbatim>\<open>MatchStats.from_transcript(t, ref)\<close> together with
  the assignments to the six attributes it leaves unset, whose values are the last
  six arguments.
\<close>

definition from_transcript ::
  "Transcript \<Rightarrow> Transcript \<Rightarrow> int \<Rightarrow> int \<Rightarrow> int \<Rightarrow> bool \<Rightarrow> category \<Rightarrow> int \<Rightarrow> MatchStats" where
  "from_transcript t ref same_bp opp_bp n_shared spliced c d =
     \<lparr>transcript_id = attr_transcript_id t,
      gene_id = attr_gene_id t,
      locus = (t_chrom t, t_start t, t_end t, t_strand t),
      length_m = t_length t,
      num_introns = int (length (t_exons t)) - 1,
      ref_transcript_id = attr_transcript_id ref,
      ref_gene_id = attr_gene_id ref,
      ref_orig_gene_id =
        (case attr_orig_gene_id ref of None \<Rightarrow> attr_gene_id ref | Some g \<Rightarrow> g),
      ref_gene_name = attr_gene_name ref,
      ref_source = attr_source ref,
      ref_gene_type = attr_gene_type ref,
      ref_locus = (t_chrom ref, t_start ref, t_end ref, t_strand ref),
      ref_length = t_length ref,
      ref_num_introns = int (length (t_exons ref)) - 1,
      shared_same_strand_bp = same_bp,
      shared_opp_strand_bp = opp_bp,
      shared_introns = n_shared,
      shared_splicing = spliced,
      distance = d,
      category = c\<rparr>"

text \<open>Lines 223-266: the body of the loop over \<^verbatim>\<open>matches.iteritems()\<close>.\<close>

definition pair_stats ::
  "Transcript \<Rightarrow> Transcript list \<Rightarrow> node list \<Rightarrow> string \<times> Match \<Rightarrow> error + MatchStats" where
  "pair_stats t refs nodes entry =
     (let ref_id = fst entry; m = snd entry in
      case ref_dict refs ref_id of
        None \<Rightarrow> Inl KeyError
      | Some ref \<Rightarrow>
          (case decide_category m nodes of
             Inl e \<Rightarrow> Inl e
           | Inr c \<Rightarrow>
               Inr (from_transcript t ref
                      (node_bp (m_nodes m SAME_STRAND)) (node_bp (m_nodes m OPP_STRAND))
                      (int (length (m_introns m))) (m_splicing m) c 0)))"

text \<open>Lines 221-267: the loop itself; the first exception ends it.\<close>

fun stats_loop ::
  "Transcript \<Rightarrow> Transcript list \<Rightarrow> node list \<Rightarrow> (string \<times> Match) list
     \<Rightarrow> error + MatchStats list" where
  "stats_loop t refs nodes [] = Inr []"
| "stats_loop t refs nodes (entry # entries) =
     (case pair_stats t refs nodes entry of
        Inl e \<Rightarrow> Inl e
      | Inr ms \<Rightarrow>
          (case stats_loop t refs nodes entries of
             Inl e \<Rightarrow> Inl e
           | Inr rest \<Rightarrow> Inr (ms # rest)))"

text \<open>
  The records of one test transcript are new objects: they are stored at the
  addresses from \<open>free\<close> on (which addresses an interpreter hands out is not
  fixed by the language; what is proved below holds for any store and addresses).
\<close>

fun alloc :: "heap \<Rightarrow> addr \<Rightarrow> MatchStats list \<Rightarrow> heap \<times> addr list" where
  "alloc h free [] = (h, [])"
| "alloc h free (ms # rest) =
     (case alloc (h(free := ms)) (Suc free) rest of (h', as) \<Rightarrow> (h', free # as))"

text \<open>
  What the generator yields at line 270: the triple, and the store as its consumer
  finds it at that moment.
\<close>

record yielded =
  y_t :: Transcript
  y_best_match :: "addr option"
  y_match_stats :: "addr list"
  y_heap :: heap

text \<open>Lines 175-270: one round of the loop over the test transcripts.\<close>

definition compare_transcript ::
  "(int \<Rightarrow> int \<Rightarrow> 'f::linorder) \<Rightarrow> (strand \<Rightarrow> strand \<Rightarrow> bool) \<Rightarrow> Transcript list \<Rightarrow> int list \<Rightarrow> heap \<Rightarrow> addr \<Rightarrow> Transcript
     \<Rightarrow> error + yielded" where
  "compare_transcript fdiv cmp_strand refs boundaries h free t =
     (let nodes = split_exons t boundaries;
          matches = matches_of cmp_strand t refs boundaries
      in
      case stats_loop t refs nodes matches of
        Inl e \<Rightarrow> Inl e
      | Inr stats \<Rightarrow>
          (case alloc h free stats of
             (h1, match_stats) \<Rightarrow>
               (case choose_best fdiv h1 match_stats of
                  Inl e \<Rightarrow> Inl e
                | Inr (best_match, h2) \<Rightarrow>
                    Inr \<lparr>y_t = t, y_best_match = best_match,
                         y_match_stats = match_stats, y_heap = h2\<rparr>)))"

text \<open>
  The generator as a whole: the triples yielded in order and, when a round raises,
  the exception that ends the iteration after them.
\<close>

fun compare_tests ::
  "(int \<Rightarrow> int \<Rightarrow> 'f::linorder) \<Rightarrow> (strand \<Rightarrow> strand \<Rightarrow> bool) \<Rightarrow> Transcript list \<Rightarrow> int list \<Rightarrow> heap \<Rightarrow> addr
     \<Rightarrow> Transcript list \<Rightarrow> yielded list \<times> error option" where
  "compare_tests fdiv cmp_strand refs boundaries h free [] = ([], None)"
| "compare_tests fdiv cmp_strand refs boundaries h free (t # ts) =
     (case compare_transcript fdiv cmp_strand refs boundaries h free t of
        Inl e \<Rightarrow> ([], Some e)
      | Inr y \<Rightarrow>
          (case compare_tests fdiv cmp_strand refs boundaries (y_heap y)
                  (free + length (y_match_stats y)) ts of
             (ys, e) \<Rightarrow> (y # ys, e)))"

definition compare_locus ::
  "(int \<Rightarrow> int \<Rightarrow> 'f::linorder) \<Rightarrow> (strand \<Rightarrow> strand \<Rightarrow> bool) \<Rightarrow> heap \<Rightarrow> addr \<Rightarrow> Transcript list
     \<Rightarrow> yielded list \<times> error option" where
  "compare_locus fdiv cmp_strand h free transcripts =
     (let boundaries = find_exon_boundaries transcripts;
          refs = filter attr_ref transcripts;
          test_transcripts = filter (\<lambda>t. \<not> attr_ref t) transcripts
      in compare_tests fdiv cmp_strand refs boundaries h free test_transcripts)"

text \<open>
  Lines 450-465 of \<^verbatim>\<open>compare_assemblies\<close>: what is written for one yielded
  triple, the row of \<^verbatim>\<open>overlapping.best.tsv\<close> and the rows of
  \<^verbatim>\<open>overlapping.tsv\<close> (none of either for a transcript without matches, which
  goes to the intergenic pass).
\<close>

definition written_rows :: "yielded \<Rightarrow> error + (MatchStats option \<times> MatchStats list)" where
  "written_rows y =
     (if length (y_match_stats y) = 0 then Inr (None, [])
      else
        case y_best_match y of
          None \<Rightarrow> Inl AssertionError
        | Some best_match \<Rightarrow>
            Inr (Some (y_heap y best_match), map (y_heap y) (y_match_stats y)))"

section \<open>find_nearest_transcripts\<close>

text \<open>\<^verbatim>\<open>class LocusFeature\<close>.\<close>

record LocusFeature =
  f_chrom :: string
  f_start :: int
  f_end :: int
  f_strand :: strand
  f_transcript_id :: string
  f_gene_id :: string
  f_orig_gene_id :: string
  f_gene_name :: string
  f_source :: string
  f_gene_type :: string
  f_length :: int
  f_num_introns :: int

definition MAX_LOCUS_DIST :: int where
  "MAX_LOCUS_DIST = 100000000"

type_synonym LocusTree = "(unit, LocusFeature list) IntervalTree"

text \<open>Lines 337-343: the scan for the nearest of the loci of one side.\<close>

fun nearest_scan ::
  "int \<Rightarrow> int \<Rightarrow> (unit, LocusFeature list) Interval list
     \<Rightarrow> (unit, LocusFeature list) Interval option \<times> int
     \<Rightarrow> (unit, LocusFeature list) Interval option \<times> int" where
  "nearest_scan start end [] acc = acc"
| "nearest_scan start end (hit # hits) (nearest_locus_hit, nearest_dist) =
     (let d = min \<bar>start - i_end hit\<bar> \<bar>i_start hit - end\<bar> in
      if d < nearest_dist then nearest_scan start end hits (Some hit, d)
      else nearest_scan start end hits (nearest_locus_hit, nearest_dist))"

text \<open>Lines 337-347: the triples one side adds to \<^verbatim>\<open>nearest_features\<close>.\<close>

definition side_features ::
  "int \<Rightarrow> int \<Rightarrow> (unit, LocusFeature list) Interval list
     \<Rightarrow> (LocusFeature \<times> category \<times> int) list" where
  "side_features start end hits =
     (case fst (nearest_scan start end hits (None, MAX_LOCUS_DIST)) of
        None \<Rightarrow> []
      | Some nearest_locus_hit \<Rightarrow>
          map (\<lambda>f. (f, INTERGENIC, min \<bar>start - f_end f\<bar> \<bar>f_start f - end\<bar>))
            (i_value nearest_locus_hit))"

text \<open>
  Lines 321-348. The tree queries \<^verbatim>\<open>before\<close> and \<^verbatim>\<open>after\<close> of
  \<^verbatim>\<open>assemblyline.lib.bx.intersection\<close> and the strand comparison are
  parameters; \<^verbatim>\<open>locus_trees\<close> is a defaultdict, a tree for every chromosome.
\<close>

definition find_nearest_transcripts ::
  "(strand \<Rightarrow> strand \<Rightarrow> bool)
     \<Rightarrow> (LocusTree \<Rightarrow> int \<Rightarrow> nat \<Rightarrow> int \<Rightarrow> (unit, LocusFeature list) Interval list)
     \<Rightarrow> (LocusTree \<Rightarrow> int \<Rightarrow> nat \<Rightarrow> int \<Rightarrow> (unit, LocusFeature list) Interval list)
     \<Rightarrow> string \<Rightarrow> int \<Rightarrow> int \<Rightarrow> strand \<Rightarrow> (string \<Rightarrow> LocusTree)
     \<Rightarrow> (LocusFeature \<times> category \<times> int) list" where
  "find_nearest_transcripts cmp_strand before after chrom start end strand locus_trees =
     (let hits = tree_find (locus_trees chrom) start end;
          nearest_features =
            concat (map (\<lambda>hit.
              map (\<lambda>f. (f, if cmp_strand (f_strand f) strand
                             then ENCOMPASSING_SAME_STRAND else ENCOMPASSING_OPP_STRAND, 0))
                (i_value hit)) hits);
          left_hits = before (locus_trees chrom) start 1 MAX_LOCUS_DIST;
          right_hits = after (locus_trees chrom) end 1 MAX_LOCUS_DIST
      in nearest_features @ side_features start end left_hits
           @ side_features start end right_hits)"

section \<open>Notions used to state the properties\<close>

text \<open>
  The divisions of lines 112-114 are defined for a record: none of the three
  divisors is zero (the first one matters only when \<^verbatim>\<open>total_introns\<close> is not zero).
\<close>

definition fracs_defined :: "MatchStats \<Rightarrow> bool" where
  "fracs_defined m \<longleftrightarrow>
     (num_introns m + ref_num_introns m \<noteq> 0 \<longrightarrow>
        num_introns m + ref_num_introns m - shared_introns m \<noteq> 0)
     \<and> length_m m + ref_length m - shared_same_strand_bp m \<noteq> 0
     \<and> length_m m + ref_length m - shared_opp_strand_bp m \<noteq> 0"

text \<open>
  The ranking key in the words of section 4.5 of the specification, to be compared
  with what \<open>hit_of\<close> computes: shared splicing, the three fractions (each the
  quotient as the division \<open>fdiv\<close> rounds it), the seven category indicators and
  the negated absolute distance.
\<close>

definition rank_key :: "(int \<Rightarrow> int \<Rightarrow> 'f) \<Rightarrow> MatchStats \<Rightarrow> 'f rank" where
  "rank_key fdiv m =
     (of_bool (shared_splicing m),
      (if num_introns m + ref_num_introns m = 0 then fdiv 0 1
       else fdiv (shared_introns m) (num_introns m + ref_num_introns m - shared_introns m)),
      fdiv (shared_same_strand_bp m) (length_m m + ref_length m - shared_same_strand_bp m),
      fdiv (shared_opp_strand_bp m) (length_m m + ref_length m - shared_opp_strand_bp m),
      of_bool (category m = INTRONIC_SAME_STRAND),
      of_bool (category m = INTRONIC_OPP_STRAND),
      of_bool (category m = INTERLEAVING_SAME_STRAND),
      of_bool (category m = INTERLEAVING_OPP_STRAND),
      of_bool (category m = ENCOMPASSING_SAME_STRAND),
      of_bool (category m = ENCOMPASSING_OPP_STRAND),
      of_bool (category m = INTERGENIC),
      - \<bar>distance m\<bar>)"

text \<open>The reference gene ids of the SAME_STRAND candidates among the objects \<open>A\<close>.\<close>

definition same_strand_ids :: "heap \<Rightarrow> addr set \<Rightarrow> string set" where
  "same_strand_ids h A = (\<lambda>a. ref_gene_id (h a)) ` {a \<in> A. category (h a) = SAME_STRAND}"

text \<open>The candidate whose tuple is the greatest.\<close>

definition winner :: "(int \<Rightarrow> int \<Rightarrow> 'f::linorder) \<Rightarrow> heap \<Rightarrow> addr set \<Rightarrow> addr" where
  "winner fdiv h A = snd (Max ((\<lambda>a. (rank_key fdiv (h a), a)) ` A))"

text \<open>
  The invariant of the data model on an exon list: every exon is a non-empty
  half-open interval, and the exons are sorted and do not overlap.
\<close>

definition wf_exons :: "exon list \<Rightarrow> bool" where
  "wf_exons es \<longleftrightarrow>
     es \<noteq> [] \<and> (\<forall>ex\<in>set es. fst ex < snd ex) \<and> sorted_wrt (\<lambda>a b. snd a \<le> fst b) es"

text \<open>
  A written row against the record the classifier created: the same, or the same
  but for a SAME_STRAND category that became READ_THROUGH.
\<close>

definition relabelled :: "MatchStats \<Rightarrow> MatchStats \<Rightarrow> bool" where
  "relabelled ms row \<longleftrightarrow>
     row = ms \<or> (category ms = SAME_STRAND \<and> row = ms\<lparr>category := READ_THROUGH\<rparr>)"

text \<open>The pairs stored in a dictionary of lists, key by key.\<close>

definition flatten :: "('k, 'v) listdict \<Rightarrow> ('k \<times> 'v) list" where
  "flatten d = concat (map (\<lambda>kv. map (Pair (fst kv)) (snd kv)) d)"

text \<open>The accumulator of \<open>r\<close> in \<^verbatim>\<open>matches\<close>, a new one when \<open>r\<close> is no key.\<close>

definition acc_of :: "(string \<times> Match) list \<Rightarrow> string \<Rightarrow> Match" where
  "acc_of ms r = (case map_of ms r of None \<Rightarrow> Match_init | Some m \<Rightarrow> m)"

text \<open>The values appended under the key \<open>k\<close>, in order, by a list of insertions.\<close>

definition vals_of :: "'k \<Rightarrow> ('k \<times> 'v) list \<Rightarrow> 'v list" where
  "vals_of k kvs = map snd (filter (\<lambda>kv. fst kv = k) kvs)"

text \<open>A list of updates applied to one accumulator, and what each appends.\<close>

definition apply_updates :: "Match \<Rightarrow> update list \<Rightarrow> Match" where
  "apply_updates m us = foldl (\<lambda>m u. apply_update u m) m us"

fun nodes_appended :: "category \<Rightarrow> update \<Rightarrow> node list" where
  "nodes_appended c (NodesAppend c' n) = (if c' = c then [n] else [])"
| "nodes_appended c u = []"

fun introns_appended :: "update \<Rightarrow> intron list" where
  "introns_appended (IntronsAppend i) = [i]"
| "introns_appended u = []"

text \<open>
  The insertions that build the three reference dictionaries, and the overlap test
  of the intron tree on a node and an intron.
\<close>

definition node_pairs :: "Transcript list \<Rightarrow> int list \<Rightarrow> (node \<times> Transcript) list" where
  "node_pairs refs boundaries =
     concat (map (\<lambda>t. map (\<lambda>n. (n, t)) (split_exons t boundaries)) refs)"

definition intron_pairs :: "Transcript list \<Rightarrow> (intron \<times> Transcript) list" where
  "intron_pairs refs = concat (map (\<lambda>t. map (\<lambda>i. (i, t)) (intron_list t)) refs)"

definition pattern_pairs :: "Transcript list \<Rightarrow> (intron list \<times> Transcript) list" where
  "pattern_pairs refs =
     concat (map (\<lambda>t. if length (intron_list t) > 0 then [(intron_list t, t)] else []) refs)"

definition overlaps :: "node \<Rightarrow> intron \<Rightarrow> bool" where
  "overlaps n i \<longleftrightarrow> fst (snd i) < snd n \<and> fst n < snd (snd i)"

text \<open>The update of lines 188-194 for one reference, and that of lines 197-204.\<close>

definition exact_update ::
  "(strand \<Rightarrow> strand \<Rightarrow> bool) \<Rightarrow> Transcript \<Rightarrow> node \<Rightarrow> Transcript \<Rightarrow> string \<times> update" where
  "exact_update cmp_strand t n ref =
     (attr_transcript_id ref,
      NodesAppend (if cmp_strand (t_strand t) (t_strand ref) then SAME_STRAND else OPP_STRAND) n)"

definition intronic_update ::
  "(strand \<Rightarrow> strand \<Rightarrow> bool) \<Rightarrow> Transcript \<Rightarrow> node \<Rightarrow> intron \<times> Transcript \<Rightarrow> string \<times> update" where
  "intronic_update cmp_strand t n kv =
     (attr_transcript_id (snd kv),
      NodesAppend (if cmp_strand (t_strand t) (fst (fst kv))
                   then INTRONIC_SAME_STRAND else INTRONIC_OPP_STRAND) n)"

section \<open>A sample locus\<close>

text \<open>
  Two reference transcripts of two genes and a test transcript that shares exons
  with both; a second test transcript lies inside the intron of the first reference.
\<close>

definition ex_ref1 :: Transcript where
  "ex_ref1 = \<lparr>t_chrom = ''chr1'', t_start = 100, t_end = 400, t_strand = 1,
     t_exons = [(100, 200), (300, 400)], attr_ref = True,
     attr_transcript_id = ''r1'', attr_gene_id = ''g1'', attr_orig_gene_id = None,
     attr_gene_name = ''G1'', attr_source = ''ref'', attr_gene_type = ''protein_coding''\<rparr>"

definition ex_ref2 :: Transcript where
  "ex_ref2 = \<lparr>t_chrom = ''chr1'', t_start = 500, t_end = 600, t_strand = 1,
     t_exons = [(500, 600)], attr_ref = True,
     attr_transcript_id = ''r2'', attr_gene_id = ''g2'', attr_orig_gene_id = None,
     attr_gene_name = ''G2'', attr_source = ''ref'', attr_gene_type = ''protein_coding''\<rparr>"

definition ex_test :: Transcript where
  "ex_test = \<lparr>t_chrom = ''chr1'', t_start = 100, t_end = 600, t_strand = 1,
     t_exons = [(100, 200), (300, 400), (500, 600)], attr_ref = False,
     attr_transcript_id = ''t1'', attr_gene_id = ''tg1'', attr_orig_gene_id = None,
     attr_gene_name = '''', attr_source = ''assembly'', attr_gene_type = ''''\<rparr>"

definition ex_inner :: Transcript where
  "ex_inner = \<lparr>t_chrom = ''chr1'', t_start = 220, t_end = 280, t_strand = 0,
     t_exons = [(220, 280)], attr_ref = False,
     attr_transcript_id = ''t2'', attr_gene_id = ''tg2'', attr_orig_gene_id = None,
     attr_gene_name = '''', attr_source = ''assembly'', attr_gene_type = ''''\<rparr>"

definition ex_single :: Transcript where
  "ex_single = \<lparr>t_chrom = ''chr1'', t_start = 500, t_end = 600, t_strand = 1,
     t_exons = [(500, 600)], attr_ref = False,
     attr_transcript_id = ''t3'', attr_gene_id = ''tg3'', attr_orig_gene_id = None,
     attr_gene_name = '''', attr_source = ''assembly'', attr_gene_type = ''''\<rparr>"

definition ex_locus :: "Transcript list" where
  "ex_locus = [ex_ref1, ex_ref2, ex_test]"

definition ex_locus2 :: "Transcript list" where
  "ex_locus2 = [ex_ref1, ex_inner]"

definition ex_locus3 :: "Transcript list" where
  "ex_locus3 = [ex_ref2, ex_single]"

definition ex_ms1 :: MatchStats where
  "ex_ms1 = from_transcript ex_test ex_ref1 200 0 1 False SAME_STRAND 0"

definition ex_ms2 :: MatchStats where
  "ex_ms2 = from_transcript ex_test ex_ref2 100 0 0 False SAME_STRAND 0"

definition ex_heap :: heap where
  "ex_heap = (\<lambda>_. ex_ms1)(Suc 0 := ex_ms2)"

text \<open>A store whose records share as many introns as they have in total.\<close>

definition ex_heap_zero :: heap where
  "ex_heap_zero = (\<lambda>_. ex_ms1\<lparr>shared_introns := 3\<rparr>)"

text \<open>A division for the samples: the exact quotient, as a rational number.\<close>

definition ex_fdiv :: "int \<Rightarrow> int \<Rightarrow> rat" where
  "ex_fdiv a b = of_int a / of_int b"

text \<open>The strand comparison that holds of equal strands only.\<close>

definition ex_cmp :: "strand \<Rightarrow> strand \<Rightarrow> bool" where
  "ex_cmp a b \<longleftrightarrow> a = b"

text \<open>The distance of a transcript span to a locus interval, as line 340 computes it.\<close>

definition locus_dist :: "int \<Rightarrow> int \<Rightarrow> (unit, LocusFeature list) Interval \<Rightarrow> int" where
  "locus_dist start end hit = min \<bar>start - i_end hit\<bar> \<bar>i_start hit - end\<bar>"

text \<open>
  A sample reference locus of two transcripts, spanning 10 to 50, and tree queries
  that return the loci ending at or before, respectively starting at or after, a
  position.
\<close>

definition ex_f1 :: LocusFeature where
  "ex_f1 = \<lparr>f_chrom = ''chr1'', f_start = 10, f_end = 30, f_strand = 1,
     f_transcript_id = ''r1'', f_gene_id = ''g1'', f_orig_gene_id = ''g1'',
     f_gene_name = ''G1'', f_source = ''ref'', f_gene_type = ''protein_coding'',
     f_length = 20, f_num_introns = 0\<rparr>"

definition ex_f2 :: LocusFeature where
  "ex_f2 = \<lparr>f_chrom = ''chr1'', f_start = 20, f_end = 50, f_strand = 1,
     f_transcript_id = ''r2'', f_gene_id = ''g1'', f_orig_gene_id = ''g1'',
     f_gene_name = ''G1'', f_source = ''ref'', f_gene_type = ''protein_coding'',
     f_length = 30, f_num_introns = 0\<rparr>"

definition ex_locus_iv :: "(unit, LocusFeature list) Interval" where
  "ex_locus_iv = \<lparr>i_start = 10, i_end = 50, i_strand = (), i_value = [ex_f1, ex_f2]\<rparr>"

definition ex_trees :: "string \<Rightarrow> LocusTree" where
  "ex_trees chrom = (if chrom = ''chr1'' then [ex_locus_iv] else [])"

definition ex_before ::
  "LocusTree \<Rightarrow> int \<Rightarrow> nat \<Rightarrow> int \<Rightarrow> (unit, LocusFeature list) Interval list" where
  "ex_before tree pos n max_dist =
     take n (filter (\<lambda>iv. i_end iv \<le> pos \<and> pos - i_end iv < max_dist) tree)"

definition ex_after ::
  "LocusTree \<Rightarrow> int \<Rightarrow> nat \<Rightarrow> int \<Rightarrow> (unit, LocusFeature list) Interval list" where
  "ex_after tree pos n max_dist =
     take n (filter (\<lambda>iv. pos \<le> i_start iv \<and> i_start iv - pos < max_dist) tree)"


text \<open>
  The cut points of one exon: its start, the boundaries strictly inside it, and its
  end. \<open>split_exon\<close> pairs each cut point with the next one.
\<close>

definition cut_points :: "exon \<Rightarrow> int list \<Rightarrow> int list" where
  "cut_points ex bs = fst ex # filter (\<lambda>b. fst ex < b \<and> b < snd ex) bs @ [snd ex]"

text \<open>
  The updates of the scan that append a node to an intronic bucket, the node of such
  an update, and the (intron, reference) pairs of the intron index that make the
  scan of node \<open>n\<close> append to an intronic bucket of the accumulator of id \<open>r\<close>.
\<close>

fun is_intronic :: "update \<Rightarrow> bool" where
  "is_intronic (NodesAppend c n) \<longleftrightarrow> c = INTRONIC_SAME_STRAND \<or> c = INTRONIC_OPP_STRAND"
| "is_intronic u \<longleftrightarrow> False"

fun node_of :: "update \<Rightarrow> node" where
  "node_of (NodesAppend c n) = n"
| "node_of u = (0, 0)"

definition intronic_hits :: "Transcript list \<Rightarrow> string \<Rightarrow> node \<Rightarrow> (intron \<times> Transcript) list" where
  "intronic_hits refs r n =
     filter (\<lambda>kv. overlaps n (fst kv) \<and> attr_transcript_id (snd kv) = r)
       (flatten (ref_intron_dict refs))"

text \<open>
  Sample loci in which a reference transcript id occurs twice. In the first, the
  test transcript has one exon inside the intron of the reference and one exon
  beyond its end; in the second, the test transcript has the exons of the reference.
\<close>

definition ex_ref_gap :: Transcript where
  "ex_ref_gap = \<lparr>t_chrom = ''chr1'', t_start = 100, t_end = 500, t_strand = 1,
     t_exons = [(100, 200), (400, 500)], attr_ref = True,
     attr_transcript_id = ''r1'', attr_gene_id = ''g1'', attr_orig_gene_id = None,
     attr_gene_name = ''G1'', attr_source = ''ref'', attr_gene_type = ''protein_coding''\<rparr>"

definition ex_outer :: Transcript where
  "ex_outer = \<lparr>t_chrom = ''chr1'', t_start = 250, t_end = 700, t_strand = 1,
     t_exons = [(250, 300), (600, 700)], attr_ref = False,
     attr_transcript_id = ''t4'', attr_gene_id = ''tg4'', attr_orig_gene_id = None,
     attr_gene_name = '''', attr_source = ''assembly'', attr_gene_type = ''''\<rparr>"

definition ex_twin :: Transcript where
  "ex_twin = \<lparr>t_chrom = ''chr1'', t_start = 100, t_end = 400, t_strand = 1,
     t_exons = [(100, 200), (300, 400)], attr_ref = False,
     attr_transcript_id = ''t5'', attr_gene_id = ''tg5'', attr_orig_gene_id = None,
     attr_gene_name = '''', attr_source = ''assembly'', attr_gene_type = ''''\<rparr>"

definition ex_locus_dup :: "Transcript list" where
  "ex_locus_dup = [ex_ref_gap, ex_ref_gap, ex_outer]"

definition ex_locus_dup2 :: "Transcript list" where
  "ex_locus_dup2 = [ex_ref1, ex_ref1, ex_twin]"

text \<open>
  The accumulator that the scan of the sample locus \<open>ex_locus2\<close> builds for the
  test transcript inside the intron of the reference.
\<close>

definition ex_acc :: Match where
  "ex_acc = snd (hd (matches_of ex_cmp ex_inner (filter attr_ref ex_locus2)
                       (find_exon_boundaries ex_locus2)))"
section \<open>Properties of choose_best\<close>

lemma hit_of_cases:
  "hit_of fdiv h a = (if fracs_defined (h a) then Inr (rank_key fdiv (h a), a) else Inl ZeroDivisionError)"
  by (simp add: hit_of_def intron_frac_def same_strand_frac_def opp_strand_frac_def
      float_div_def fracs_defined_def rank_key_def Let_def)

lemma collect_hits_cases:
  "collect_hits fdiv h lst hits ids =
     (if \<forall>a\<in>set lst. fracs_defined (h a)
      then Inr (hits @ map (\<lambda>a. (rank_key fdiv (h a), a)) lst, ids \<union> same_strand_ids h (set lst))
      else Inl ZeroDivisionError)"
proof (induction lst arbitrary: hits ids)
  case Nil
  show ?case by (simp add: same_strand_ids_def)
next
  case (Cons a lst)
  have ids: "same_strand_ids h (insert a (set lst)) =
      (if category (h a) = SAME_STRAND then {ref_gene_id (h a)} else {}) \<union> same_strand_ids h (set lst)"
    by (auto simp: same_strand_ids_def)
  show ?case
    by (auto simp: hit_of_cases Cons.IH ids)
qed

lemma sorted_last_Max:
  fixes zs :: "('f::linorder) hit list"
  shows "sorted zs \<Longrightarrow> zs \<noteq> [] \<Longrightarrow> last zs = Max (set zs)"
  by (induction zs) (auto simp: max_def Max_insert intro: antisym)

lemma sort_reverse_head:
  assumes "sort_reverse xs = y # ys"
  shows "y = Max (set xs)"
proof -
  have ne: "xs \<noteq> []" using assms by (auto simp: sort_reverse_def)
  have sne: "sort xs \<noteq> []" using ne by (metis length_0_conv length_sort)
  have "y = last (sort xs)" using assms by (simp add: sort_reverse_def)
  also have "\<dots> = Max (set (sort xs))" using sne by (simp add: sorted_last_Max)
  finally show ?thesis by simp
qed

lemma sort_reverse_nonempty: "xs \<noteq> [] \<Longrightarrow> sort_reverse xs \<noteq> []"
  by (simp add: sort_reverse_def) (metis length_0_conv length_sort)

text \<open>
  What \<open>choose_best\<close> does on a non-empty list, in terms of the set of its
  candidates only.
\<close>

lemma choose_best_cases:
  assumes "lst \<noteq> []"
  shows "choose_best fdiv h lst =
     (if \<forall>a\<in>set lst. fracs_defined (h a)
      then Inr (Some (winner fdiv h (set lst)),
             if category (h (winner fdiv h (set lst))) = SAME_STRAND
                \<and> card (same_strand_ids h (set lst)) > 1
             then h(winner fdiv h (set lst) := (h (winner fdiv h (set lst)))\<lparr>category := READ_THROUGH\<rparr>)
             else h)
      else Inl ZeroDivisionError)"
proof (cases "\<forall>a\<in>set lst. fracs_defined (h a)")
  case False
  hence "collect_hits fdiv h lst [] {} = Inl ZeroDivisionError"
    by (simp only: collect_hits_cases if_False)
  thus ?thesis using assms False by (simp add: choose_best_def)
next
  case True
  let ?hits = "map (\<lambda>a. (rank_key fdiv (h a), a)) lst"
  have ne: "?hits \<noteq> []" using assms by simp
  obtain y ys where srt: "sort_reverse ?hits = y # ys"
    using sort_reverse_nonempty[OF ne] by (cases "sort_reverse ?hits") auto
  have "y = Max (set ?hits)" using sort_reverse_head[OF srt] .
  hence y: "snd y = winner fdiv h (set lst)" by (simp add: winner_def)
  show ?thesis using assms True
    by (simp add: choose_best_def collect_hits_cases srt y Let_def)
qed

lemma winner_in:
  assumes "finite A" "A \<noteq> {}"
  shows "winner fdiv h A \<in> A" and "\<forall>a\<in>A. (rank_key fdiv (h a), a) \<le> (rank_key fdiv (h (winner fdiv h A)), winner fdiv h A)"
proof -
  let ?S = "(\<lambda>a. (rank_key fdiv (h a), a)) ` A"
  have fin: "finite ?S" and ne: "?S \<noteq> {}" using assms by auto
  have "Max ?S \<in> ?S" using Max_in[OF fin ne] .
  then obtain w where w: "w \<in> A" "Max ?S = (rank_key fdiv (h w), w)" by auto
  hence ww: "winner fdiv h A = w" by (simp add: winner_def)
  show "winner fdiv h A \<in> A" using w ww by simp
  show "\<forall>a\<in>A. (rank_key fdiv (h a), a) \<le> (rank_key fdiv (h (winner fdiv h A)), winner fdiv h A)"
  proof
    fix a assume "a \<in> A"
    hence "(rank_key fdiv (h a), a) \<in> ?S" by (rule imageI)
    hence "(rank_key fdiv (h a), a) \<le> Max ?S" by (rule Max_ge[OF fin])
    thus "(rank_key fdiv (h a), a) \<le> (rank_key fdiv (h (winner fdiv h A)), winner fdiv h A)"
      by (simp only: w ww)
  qed
qed

lemma prod_le_fst:
  fixes a c :: "'a::order" and b d :: "'b::order"
  shows "(a, b) \<le> (c, d) \<Longrightarrow> a \<le> c"
  by (auto simp: less_eq_prod_def)

lemma choose_best_Some:
  assumes "choose_best fdiv h lst = Inr (Some w, h')"
  shows "lst \<noteq> []" and "\<forall>a\<in>set lst. fracs_defined (h a)" and "w = winner fdiv h (set lst)"
    and "h' = (if category (h w) = SAME_STRAND \<and> card (same_strand_ids h (set lst)) > 1
               then h(w := (h w)\<lparr>category := READ_THROUGH\<rparr>) else h)"
proof -
  show ne: "lst \<noteq> []" using assms by (auto simp: choose_best_def)
  show df: "\<forall>a\<in>set lst. fracs_defined (h a)"
    using assms choose_best_cases[OF ne, of fdiv h] by (auto split: if_splits)
  show w: "w = winner fdiv h (set lst)"
    using assms choose_best_cases[OF ne, of fdiv h] df by (auto split: if_splits)
  show "h' = (if category (h w) = SAME_STRAND \<and> card (same_strand_ids h (set lst)) > 1
               then h(w := (h w)\<lparr>category := READ_THROUGH\<rparr>) else h)"
    using assms choose_best_cases[OF ne, of fdiv h] df w by (auto split: if_splits)
qed

text \<open>
  Claim C2, as stated, fails: a candidate whose shared introns equal its total
  introns makes line 112 divide by zero, so no candidate is returned for the list.
\<close>

theorem choose_best_maximal_key_counterexample:
  "num_introns (ex_heap_zero 0) + ref_num_introns (ex_heap_zero 0) = 3
   \<and> shared_introns (ex_heap_zero 0) = 3
   \<and> choose_best ex_fdiv ex_heap_zero [0] = Inl ZeroDivisionError"
proof -
  have n: "num_introns (ex_heap_zero 0) + ref_num_introns (ex_heap_zero 0) = 3" by code_simp
  have s: "shared_introns (ex_heap_zero 0) = 3" by code_simp
  have "\<not> fracs_defined (ex_heap_zero 0)" using n s by (simp add: fracs_defined_def)
  hence "choose_best ex_fdiv ex_heap_zero [0] = Inl ZeroDivisionError"
    using choose_best_cases[of "[0]" ex_fdiv ex_heap_zero] by simp
  with n s show ?thesis by (intro conjI)
qed

text \<open>
  Claim C2, amended. For a non-empty candidate list in which no candidate has a
  zero divisor, \<open>choose_best\<close> returns a candidate of the list whose ranking key,
  the twelve numbers of section 4.5 compared lexicographically, is the greatest of
  the list; the three fractions of the key are the quotients as the floating-point
  division rounds them (any division \<open>fdiv\<close>), so that two candidates whose
  quotients round to the same number tie in that component.
\<close>

theorem choose_best_maximal_key:
  assumes "lst \<noteq> []" and "\<forall>a\<in>set lst. fracs_defined (h a)"
  shows "\<exists>w h'. choose_best fdiv h lst = Inr (Some w, h') \<and> w \<in> set lst
           \<and> (\<forall>a\<in>set lst. rank_key fdiv (h a) \<le> rank_key fdiv (h w))"
proof -
  have fin: "finite (set lst)" and ne: "set lst \<noteq> {}" using assms(1) by auto
  let ?w = "winner fdiv h (set lst)"
  have "\<forall>a\<in>set lst. (rank_key fdiv (h a), a) \<le> (rank_key fdiv (h ?w), ?w)"
    using winner_in(2)[OF fin ne] .
  hence "\<forall>a\<in>set lst. rank_key fdiv (h a) \<le> rank_key fdiv (h ?w)"
    by (blast dest: prod_le_fst)
  moreover have "?w \<in> set lst" using winner_in(1)[OF fin ne] .
  ultimately show ?thesis
    using choose_best_cases[OF assms(1), of fdiv h] assms(2) by (auto split: if_splits)
qed

theorem choose_best_maximal_key_witness:
  "fracs_defined (ex_heap 0) \<and> fracs_defined (ex_heap (Suc 0))
   \<and> (\<exists>w h'. choose_best ex_fdiv ex_heap [0, Suc 0] = Inr (Some w, h') \<and> w \<in> set [0, Suc 0]
         \<and> (\<forall>a\<in>set [0, Suc 0]. rank_key ex_fdiv (ex_heap a) \<le> rank_key ex_fdiv (ex_heap w)))"
proof -
  have h1: "[0, Suc 0] \<noteq> ([] :: addr list)" by simp
  have d0: "fracs_defined (ex_heap 0)" by code_simp
  have d1: "fracs_defined (ex_heap (Suc 0))" by code_simp
  have h2: "\<forall>a\<in>set [0, Suc 0]. fracs_defined (ex_heap a)" using d0 d1 by simp
  from choose_best_maximal_key[OF h1 h2] d0 d1 show ?thesis by blast
qed

text \<open>
  Claim C4. The result of \<open>choose_best\<close>, the chosen object and the store, is the
  same for every permutation of a non-empty candidate list.
\<close>

theorem choose_best_permutation:
  assumes "lst \<noteq> []" and "mset lst' = mset lst"
  shows "choose_best fdiv h lst' = choose_best fdiv h lst"
proof -
  have s: "set lst' = set lst" using assms(2) by (rule mset_eq_setD)
  have ne: "lst' \<noteq> []" using assms by auto
  show ?thesis
    by (simp only: choose_best_cases[OF assms(1)] choose_best_cases[OF ne] s)
qed

theorem choose_best_permutation_witness:
  "[0, Suc 0] \<noteq> ([] :: addr list) \<and> mset [Suc 0, 0] = mset [0, Suc 0]
   \<and> choose_best ex_fdiv ex_heap [Suc 0, 0] = choose_best ex_fdiv ex_heap [0, Suc 0]"
proof -
  have h1: "[0, Suc 0] \<noteq> ([] :: addr list)" by simp
  have h2: "mset [Suc 0, 0] = mset [0, Suc 0]" by simp
  from choose_best_permutation[OF h1 h2] h1 h2 show ?thesis by blast
qed

text \<open>
  Claim C6. When \<open>choose_best\<close> returns the object \<open>w\<close>, the store changes at
  most in the category of \<open>w\<close>: it becomes READ_THROUGH if and only if it was
  SAME_STRAND and the SAME_STRAND candidates of the list name at least two distinct
  reference gene ids; otherwise the category of \<open>w\<close> is what it was.
\<close>

theorem choose_best_read_through:
  assumes "choose_best fdiv h lst = Inr (Some w, h')"
  shows "h' = (if category (h w) = SAME_STRAND
                  \<and> 2 \<le> card {ref_gene_id (h a) |a. a \<in> set lst \<and> category (h a) = SAME_STRAND}
               then h(w := (h w)\<lparr>category := READ_THROUGH\<rparr>) else h)
         \<and> ((category (h' w) = READ_THROUGH \<and> category (h w) \<noteq> READ_THROUGH) \<longleftrightarrow>
              (category (h w) = SAME_STRAND
                 \<and> 2 \<le> card {ref_gene_id (h a) |a. a \<in> set lst \<and> category (h a) = SAME_STRAND}))"
proof -
  have ids: "{ref_gene_id (h a) |a. a \<in> set lst \<and> category (h a) = SAME_STRAND}
             = same_strand_ids h (set lst)"
    by (auto simp: same_strand_ids_def)
  have 1: "h' = (if category (h w) = SAME_STRAND
                  \<and> 2 \<le> card {ref_gene_id (h a) |a. a \<in> set lst \<and> category (h a) = SAME_STRAND}
               then h(w := (h w)\<lparr>category := READ_THROUGH\<rparr>) else h)"
    using choose_best_Some(4)[OF assms] by (simp only: ids) (simp add: Suc_le_eq numeral_2_eq_2)
  have 2: "(category (h' w) = READ_THROUGH \<and> category (h w) \<noteq> READ_THROUGH) \<longleftrightarrow>
         (category (h w) = SAME_STRAND
            \<and> 2 \<le> card {ref_gene_id (h a) |a. a \<in> set lst \<and> category (h a) = SAME_STRAND})"
    by (subst 1) auto
  from 1 2 show ?thesis by (rule conjI)
qed

theorem choose_best_read_through_witness:
  "choose_best ex_fdiv ex_heap [0, Suc 0] = Inr (Some 0, ex_heap(0 := (ex_heap 0)\<lparr>category := READ_THROUGH\<rparr>))
   \<and> category (ex_heap 0) = SAME_STRAND
   \<and> 2 \<le> card {ref_gene_id (ex_heap a) |a. a \<in> set [0, Suc 0] \<and> category (ex_heap a) = SAME_STRAND}"
proof -
  have df: "\<forall>a\<in>set [0, Suc 0]. fracs_defined (ex_heap a)" by code_simp
  have "winner ex_fdiv ex_heap (set [0, Suc 0]) \<in> set [0, Suc 0]"
    by (rule winner_in(1)) auto
  then obtain w h' where r: "choose_best ex_fdiv ex_heap [0, Suc 0] = Inr (Some w, h')"
    using choose_best_cases[of "[0, Suc 0]" ex_fdiv ex_heap] df by (auto split: if_splits)
  have w: "w = 0"
  proof -
    have "case choose_best ex_fdiv ex_heap [0, Suc 0] of Inr (Some b, _) \<Rightarrow> b = 0 | _ \<Rightarrow> False"
      by code_simp
    thus ?thesis using r by simp
  qed
  have c: "category (ex_heap 0) = SAME_STRAND" by code_simp
  have ids: "{ref_gene_id (ex_heap a) |a. a \<in> set [0, Suc 0] \<and> category (ex_heap a) = SAME_STRAND}
             = {''g1'', ''g2''}"
    by (auto simp: ex_heap_def ex_ms1_def ex_ms2_def from_transcript_def ex_ref1_def ex_ref2_def)
  have k: "2 \<le> card {ref_gene_id (ex_heap a) |a. a \<in> set [0, Suc 0] \<and> category (ex_heap a) = SAME_STRAND}"
    by (simp only: ids) simp
  from choose_best_read_through[OF r] w c k r show ?thesis by simp
qed

section \<open>Properties of find_nearest_transcripts\<close>

lemma nearest_scan_inv:
  "nearest_scan start end hits (b, d) = (b', d') \<Longrightarrow>
     d' \<le> d \<and> (\<forall>x\<in>set hits. d' \<le> locus_dist start end x)
     \<and> ((b' = b \<and> d' = d) \<or> (\<exists>x\<in>set hits. b' = Some x \<and> locus_dist start end x = d' \<and> d' < d))"
proof (induction hits arbitrary: b d)
  case Nil
  then show ?case by simp
next
  case (Cons hit hits)
  let ?k = "locus_dist start end hit"
  show ?case
  proof (cases "?k < d")
    case True
    hence "nearest_scan start end hits (Some hit, ?k) = (b', d')"
      using Cons.prems by (simp add: locus_dist_def Let_def)
    from Cons.IH[OF this] True show ?thesis by auto
  next
    case False
    hence "nearest_scan start end hits (b, d) = (b', d')"
      using Cons.prems by (simp add: locus_dist_def Let_def)
    from Cons.IH[OF this] False show ?thesis by auto
  qed
qed

lemma nearest_scan_Some:
  assumes "fst (nearest_scan start end hits (None, MAX_LOCUS_DIST)) = Some hit"
  shows "hit \<in> set hits \<and> locus_dist start end hit < MAX_LOCUS_DIST
         \<and> (\<forall>x\<in>set hits. locus_dist start end hit \<le> locus_dist start end x)"
proof -
  obtain b' d' where r: "nearest_scan start end hits (None, MAX_LOCUS_DIST) = (b', d')"
    by (cases "nearest_scan start end hits (None, MAX_LOCUS_DIST)") auto
  hence b': "b' = Some hit" using assms by simp
  from nearest_scan_inv[OF r] b' show ?thesis by auto
qed

lemma set_side_features:
  "set (side_features start end hits) =
     {(f, INTERGENIC, min \<bar>start - f_end f\<bar> \<bar>f_start f - end\<bar>) |f hit.
        fst (nearest_scan start end hits (None, MAX_LOCUS_DIST)) = Some hit \<and> f \<in> set (i_value hit)}"
proof (cases "fst (nearest_scan start end hits (None, MAX_LOCUS_DIST))")
  case None
  then show ?thesis by (simp add: side_features_def)
next
  case (Some hit)
  then show ?thesis by (auto simp: side_features_def)
qed

lemma set_concat_map_values:
  "set (concat (map (\<lambda>hit. map g (i_value hit)) hits)) =
     {g f |f hit. hit \<in> set hits \<and> f \<in> set (i_value hit)}"
  by auto

text \<open>
  Claim C7, as the code has it. A locus of two reference transcripts spanning 10 to 50
  lies before a transcript spanning 100 to 200: the distance of the span to the locus
  is 50, and the INTERGENIC candidate for the reference transcript that ends at 30
  carries 70, its own distance.
\<close>

theorem find_nearest_transcripts_counterexample:
  "find_nearest_transcripts ex_cmp ex_before ex_after ''chr1'' 100 200 1 ex_trees
     = [(ex_f1, INTERGENIC, 70), (ex_f2, INTERGENIC, 50)]
   \<and> ex_before (ex_trees ''chr1'') 100 1 MAX_LOCUS_DIST = [ex_locus_iv]
   \<and> locus_dist 100 200 ex_locus_iv = 50"
  by (simp add: find_nearest_transcripts_def tree_find_def ex_trees_def ex_before_def
      ex_after_def ex_locus_iv_def side_features_def MAX_LOCUS_DIST_def locus_dist_def
      ex_f1_def ex_f2_def)

text \<open>
  Claim C7, amended. The candidates are: for every locus that the overlap query
  returns, each of its reference transcripts as an ENCOMPASSING match at distance
  0; and, for the nearest locus among those the query before the start returns and
  for the nearest among those the query after the end returns, each of its
  reference transcripts as an INTERGENIC match whose distance is
  min(|start - f.end|, |f.start - end|), taken from the coordinates of that
  reference transcript \<open>f\<close>. The nearest locus of a side is one of the loci
  returned, its distance min(|start - locus.end|, |locus.start - end|) is below
  MAX_LOCUS_DIST and no larger than that of any other locus returned.
\<close>

theorem find_nearest_transcripts_candidates:
  "set (find_nearest_transcripts cmp_strand before after chrom start end strand locus_trees) =
     {(f, if cmp_strand (f_strand f) strand then ENCOMPASSING_SAME_STRAND
          else ENCOMPASSING_OPP_STRAND, 0) |f hit.
        hit \<in> set (tree_find (locus_trees chrom) start end) \<and> f \<in> set (i_value hit)}
     \<union> {(f, INTERGENIC, min \<bar>start - f_end f\<bar> \<bar>f_start f - end\<bar>) |f hit.
          (fst (nearest_scan start end (before (locus_trees chrom) start 1 MAX_LOCUS_DIST)
                 (None, MAX_LOCUS_DIST)) = Some hit
           \<or> fst (nearest_scan start end (after (locus_trees chrom) end 1 MAX_LOCUS_DIST)
                 (None, MAX_LOCUS_DIST)) = Some hit)
          \<and> f \<in> set (i_value hit)}
   \<and> (\<forall>hits hit. fst (nearest_scan start end hits (None, MAX_LOCUS_DIST)) = Some hit \<longrightarrow>
         hit \<in> set hits \<and> locus_dist start end hit < MAX_LOCUS_DIST
         \<and> (\<forall>x\<in>set hits. locus_dist start end hit \<le> locus_dist start end x))"
proof -
  have 1: "set (find_nearest_transcripts cmp_strand before after chrom start end strand locus_trees) =
     {(f, if cmp_strand (f_strand f) strand then ENCOMPASSING_SAME_STRAND
          else ENCOMPASSING_OPP_STRAND, 0) |f hit.
        hit \<in> set (tree_find (locus_trees chrom) start end) \<and> f \<in> set (i_value hit)}
     \<union> {(f, INTERGENIC, min \<bar>start - f_end f\<bar> \<bar>f_start f - end\<bar>) |f hit.
          (fst (nearest_scan start end (before (locus_trees chrom) start 1 MAX_LOCUS_DIST)
                 (None, MAX_LOCUS_DIST)) = Some hit
           \<or> fst (nearest_scan start end (after (locus_trees chrom) end 1 MAX_LOCUS_DIST)
                 (None, MAX_LOCUS_DIST)) = Some hit)
          \<and> f \<in> set (i_value hit)}"
    unfolding find_nearest_transcripts_def Let_def set_append set_side_features
      set_concat_map_values
    by blast
  have 2: "\<forall>hits hit. fst (nearest_scan start end hits (None, MAX_LOCUS_DIST)) = Some hit \<longrightarrow>
         hit \<in> set hits \<and> locus_dist start end hit < MAX_LOCUS_DIST
         \<and> (\<forall>x\<in>set hits. locus_dist start end hit \<le> locus_dist start end x)"
    by (intro allI impI) (rule nearest_scan_Some)
  from 1 2 show ?thesis by (rule conjI)
qed

theorem find_nearest_transcripts_candidates_witness:
  "fst (nearest_scan 100 200 [ex_locus_iv] (None, MAX_LOCUS_DIST)) = Some ex_locus_iv
   \<and> ex_locus_iv \<in> set [ex_locus_iv]
   \<and> locus_dist 100 200 ex_locus_iv < MAX_LOCUS_DIST"
proof -
  have h: "fst (nearest_scan 100 200 [ex_locus_iv] (None, MAX_LOCUS_DIST)) = Some ex_locus_iv"
    by (simp add: ex_locus_iv_def MAX_LOCUS_DIST_def)
  from find_nearest_transcripts_candidates[of ex_cmp ex_before ex_after "''chr1''" 100 200 1 ex_trees]
  have "\<forall>hits hit. fst (nearest_scan 100 200 hits (None, MAX_LOCUS_DIST)) = Some hit \<longrightarrow>
         hit \<in> set hits \<and> locus_dist 100 200 hit < MAX_LOCUS_DIST
         \<and> (\<forall>x\<in>set hits. locus_dist 100 200 hit \<le> locus_dist 100 200 x)"
    by (rule conjunct2)
  hence "ex_locus_iv \<in> set [ex_locus_iv] \<and> locus_dist 100 200 ex_locus_iv < MAX_LOCUS_DIST
         \<and> (\<forall>x\<in>set [ex_locus_iv]. locus_dist 100 200 ex_locus_iv \<le> locus_dist 100 200 x)"
    using h by (elim allE impE) assumption
  with h show ?thesis by simp
qed

section \<open>Dictionaries, accumulators and the scan of a test transcript\<close>

lemma vals_of_simps [simp]:
  "vals_of k [] = []"
  "vals_of k (kv # kvs) = (if fst kv = k then snd kv # vals_of k kvs else vals_of k kvs)"
  "vals_of k (xs @ ys) = vals_of k xs @ vals_of k ys"
  by (simp_all add: vals_of_def)

lemma map_of_dict_append:
  "map_of (dict_append d (k, v)) k' =
     (if k' = k then Some ((case map_of d k of None \<Rightarrow> [] | Some vs \<Rightarrow> vs) @ [v])
      else map_of d k')"
  by (induction d) auto

lemma map_of_foldl_dict_append:
  "map_of (foldl dict_append d kvs) k =
     (case map_of d k of
        None \<Rightarrow> (if vals_of k kvs = [] then None else Some (vals_of k kvs))
      | Some ws \<Rightarrow> Some (ws @ vals_of k kvs))"
proof (induction kvs arbitrary: d)
  case Nil
  show ?case by (simp split: option.splits)
next
  case (Cons kv kvs)
  obtain k' v where kv: "kv = (k', v)" by (cases kv)
  show ?case
    by (simp add: kv Cons.IH map_of_dict_append split: option.splits)
qed

lemma map_of_dict_of:
  "map_of (dict_of kvs) k = (if vals_of k kvs = [] then None else Some (vals_of k kvs))"
  by (simp add: dict_of_def map_of_foldl_dict_append)

lemma mset_flatten_dict_append:
  "mset (flatten (dict_append d kv)) = add_mset kv (mset (flatten d))"
proof (cases kv)
  case (Pair k v)
  show ?thesis unfolding Pair
    by (induction d) (auto simp: flatten_def)
qed

lemma mset_flatten_foldl:
  "mset (flatten (foldl dict_append d kvs)) = mset (flatten d) + mset kvs"
  by (induction kvs arbitrary: d) (simp_all add: mset_flatten_dict_append)

lemma flatten_Nil [simp]: "flatten [] = []"
  by (simp add: flatten_def)

lemma mset_flatten_dict_of: "mset (flatten (dict_of kvs)) = mset kvs"
  by (simp add: dict_of_def mset_flatten_foldl)

lemma vals_of_empty_iff: "vals_of k kvs = [] \<longleftrightarrow> k \<notin> fst ` set kvs"
  by (simp add: vals_of_def filter_empty_conv image_iff) force

lemma set_vals_of: "set (vals_of k kvs) = {v. (k, v) \<in> set kvs}"
  by (force simp: vals_of_def image_iff)

lemma map_fst_matches_apply:
  "map fst (matches_apply ms (r, u)) =
     (if r \<in> set (map fst ms) then map fst ms else map fst ms @ [r])"
  by (induction ms) (auto simp del: set_map)

lemma keys_matches_apply:
  "fst ` set (matches_apply ms (r, u)) = insert r (fst ` set ms)"
proof -
  have "set (map fst (matches_apply ms (r, u))) = insert r (set (map fst ms))"
    by (simp only: map_fst_matches_apply) (auto simp del: set_map)
  thus ?thesis by simp
qed

lemma distinct_matches_apply:
  "distinct (map fst ms) \<Longrightarrow> distinct (map fst (matches_apply ms (r, u)))"
  by (simp only: map_fst_matches_apply) (auto simp del: set_map)

lemma acc_of_matches_apply:
  "acc_of (matches_apply ms (r, u)) r' =
     (if r' = r then apply_update u (acc_of ms r) else acc_of ms r')"
  by (induction ms) (auto simp: acc_of_def)

lemma acc_of_foldl:
  "acc_of (foldl matches_apply ms us) r = apply_updates (acc_of ms r) (vals_of r us)"
proof (induction us arbitrary: ms)
  case Nil
  show ?case by (simp add: apply_updates_def)
next
  case (Cons ru us)
  obtain r' u where ru: "ru = (r', u)" by (cases ru)
  show ?case
    by (simp add: ru Cons.IH acc_of_matches_apply apply_updates_def)
qed

lemma keys_foldl:
  "fst ` set (foldl matches_apply ms us) = fst ` set ms \<union> fst ` set us"
proof (induction us arbitrary: ms)
  case Nil
  show ?case by simp
next
  case (Cons ru us)
  obtain r' u where ru: "ru = (r', u)" by (cases ru)
  show ?case
    by (simp add: ru Cons.IH keys_matches_apply)
qed

lemma distinct_foldl:
  "distinct (map fst ms) \<Longrightarrow> distinct (map fst (foldl matches_apply ms us))"
proof (induction us arbitrary: ms)
  case Nil
  then show ?case by simp
next
  case (Cons ru us)
  obtain r' u where ru: "ru = (r', u)" by (cases ru)
  show ?case
    using Cons.IH[OF distinct_matches_apply[OF Cons.prems, of r' u]] by (simp add: ru)
qed

lemma acc_of_entry:
  "distinct (map fst ms) \<Longrightarrow> (r, m) \<in> set ms \<Longrightarrow> acc_of ms r = m"
  by (simp add: acc_of_def)

lemma apply_updates_Cons: "apply_updates m (u # us) = apply_updates (apply_update u m) us"
  by (simp add: apply_updates_def)

lemma apply_updates_Nil: "apply_updates m [] = m"
  by (simp add: apply_updates_def)

lemma m_nodes_apply_updates:
  "m_nodes (apply_updates m us) c = m_nodes m c @ concat (map (nodes_appended c) us)"
proof (induction us arbitrary: m)
  case Nil
  show ?case by (simp add: apply_updates_Nil)
next
  case (Cons u us)
  show ?case by (cases u) (simp_all add: apply_updates_Cons Cons.IH)
qed

lemma m_introns_apply_updates:
  "m_introns (apply_updates m us) = m_introns m @ concat (map introns_appended us)"
proof (induction us arbitrary: m)
  case Nil
  show ?case by (simp add: apply_updates_Nil)
next
  case (Cons u us)
  show ?case by (cases u) (simp_all add: apply_updates_Cons Cons.IH)
qed

lemma m_splicing_apply_updates:
  "m_splicing (apply_updates m us) \<longleftrightarrow> m_splicing m \<or> SplicingTrue \<in> set us"
proof (induction us arbitrary: m)
  case Nil
  show ?case by (simp add: apply_updates_Nil)
next
  case (Cons u us)
  show ?case by (cases u) (auto simp: apply_updates_Cons Cons.IH)
qed

lemma alloc_props:
  "alloc h free stats = (h1, addrs) \<Longrightarrow>
     addrs = [free..<free + length stats] \<and> map h1 addrs = stats \<and> (\<forall>a<free. h1 a = h a)"
proof (induction stats arbitrary: h free h1 addrs)
  case Nil
  then show ?case by simp
next
  case (Cons ms rest)
  obtain h' as where r: "alloc (h(free := ms)) (Suc free) rest = (h', as)"
    by (cases "alloc (h(free := ms)) (Suc free) rest") auto
  from Cons.prems r have e: "h1 = h'" "addrs = free # as" by simp_all
  note IH = Cons.IH[OF r]
  have ih: "as = [Suc free..<Suc free + length rest]" "map h' as = rest"
    "\<forall>a<Suc free. h' a = (h(free := ms)) a"
    using IH by blast+
  have "h' free = ms" using ih(3) by simp
  moreover have "\<forall>a<free. h' a = h a" using ih(3) by simp
  moreover have "[free..<free + length (ms # rest)] = free # [Suc free..<Suc free + length rest]"
    by (subst upt_rec) simp
  ultimately show ?case using e ih(1,2) by (simp del: upt_Suc)
qed

lemma choose_best_frame:
  assumes "choose_best fdiv h lst = Inr (b, h')"
  shows "h' = h \<or> (\<exists>w. b = Some w \<and> w \<in> set lst \<and> category (h w) = SAME_STRAND
                      \<and> h' = h(w := (h w)\<lparr>category := READ_THROUGH\<rparr>))"
proof (cases b)
  case None
  show ?thesis
  proof (cases "lst = []")
    case True
    then show ?thesis using assms by (simp add: choose_best_def)
  next
    case False
    show ?thesis using choose_best_cases[OF False, of fdiv h] assms None
      by (auto split: if_splits)
  qed
next
  case (Some w)
  note cb = choose_best_Some[OF assms[unfolded Some]]
  have "w \<in> set lst" using cb(1,3) winner_in(1)[of "set lst" fdiv h] by auto
  thus ?thesis using cb(4) Some by auto
qed

lemma stats_loop_Inr:
  "stats_loop t refs nodes entries = Inr stats \<Longrightarrow>
     list_all2 (\<lambda>entry ms. pair_stats t refs nodes entry = Inr ms) entries stats"
proof (induction entries arbitrary: stats)
  case Nil
  then show ?case by simp
next
  case (Cons entry entries)
  then show ?case by (auto split: sum.splits)
qed

lemma compare_transcript_Inr:
  assumes "compare_transcript fdiv cmp_strand refs boundaries h free t = Inr y"
  shows "\<exists>stats h1.
           stats_loop t refs (split_exons t boundaries) (matches_of cmp_strand t refs boundaries)
             = Inr stats
           \<and> alloc h free stats = (h1, y_match_stats y)
           \<and> choose_best fdiv h1 (y_match_stats y) = Inr (y_best_match y, y_heap y)
           \<and> y_t y = t"
  using assms
  by (auto simp: compare_transcript_def Let_def split: sum.splits prod.splits)

lemma compare_tests_origin:
  "y \<in> set (fst (compare_tests fdiv cmp_strand refs boundaries h free ts)) \<Longrightarrow>
     \<exists>h0 free0. y_t y \<in> set ts
        \<and> compare_transcript fdiv cmp_strand refs boundaries h0 free0 (y_t y) = Inr y"
proof (induction ts arbitrary: h free)
  case Nil
  then show ?case by simp
next
  case (Cons t ts)
  show ?case
  proof (cases "compare_transcript fdiv cmp_strand refs boundaries h free t")
    case (Inl e)
    then show ?thesis using Cons.prems by simp
  next
    case (Inr y0)
    obtain ys e where r: "compare_tests fdiv cmp_strand refs boundaries (y_heap y0)
        (free + length (y_match_stats y0)) ts = (ys, e)"
      by (cases "compare_tests fdiv cmp_strand refs boundaries (y_heap y0)
        (free + length (y_match_stats y0)) ts") auto
    have yt: "y_t y0 = t" using compare_transcript_Inr[OF Inr] by auto
    from Cons.prems Inr r have "y = y0 \<or> y \<in> set ys" by simp
    thus ?thesis
    proof
      assume "y = y0"
      thus ?thesis using Inr yt by auto
    next
      assume "y \<in> set ys"
      hence "y \<in> set (fst (compare_tests fdiv cmp_strand refs boundaries (y_heap y0)
        (free + length (y_match_stats y0)) ts))" using r by simp
      from Cons.IH[OF this] show ?thesis by auto
    qed
  qed
qed

lemma ref_node_dict_alt: "ref_node_dict refs bs = dict_of (node_pairs refs bs)"
  by (simp add: ref_node_dict_def node_pairs_def)

lemma ref_intron_dict_alt: "ref_intron_dict refs = dict_of (intron_pairs refs)"
  by (simp add: ref_intron_dict_def intron_pairs_def)

lemma tree_hits_flatten:
  "concat (map (\<lambda>hit. map (\<lambda>ref. (attr_transcript_id ref,
        NodesAppend (if cmp_strand (t_strand t) (i_strand hit)
                     then INTRONIC_SAME_STRAND else INTRONIC_OPP_STRAND) n)) (i_value hit))
     (tree_find (map (\<lambda>((strand, s, e), rs).
         \<lparr>i_start = s, i_end = e, i_strand = strand, i_value = rs\<rparr>) d) (fst n) (snd n)))
   = map (intronic_update cmp_strand t n) (filter (\<lambda>kv. overlaps n (fst kv)) (flatten d))"
proof (induction d)
  case Nil
  show ?case by (simp add: tree_find_def)
next
  case (Cons a d)
  obtain strand s e rs where a: "a = ((strand, s, e), rs)" by (cases a) auto
  have fl: "flatten (a # d) = map (Pair (strand, s, e)) rs @ flatten d"
    by (simp add: flatten_def a)
  have tf: "tree_find (map (\<lambda>((strand, s, e), rs).
         \<lparr>i_start = s, i_end = e, i_strand = strand, i_value = rs\<rparr>) (a # d)) (fst n) (snd n)
      = (if s < snd n \<and> fst n < e
         then [\<lparr>i_start = s, i_end = e, i_strand = strand, i_value = rs\<rparr>] else [])
        @ tree_find (map (\<lambda>((strand, s, e), rs).
         \<lparr>i_start = s, i_end = e, i_strand = strand, i_value = rs\<rparr>) d) (fst n) (snd n)"
    by (simp add: tree_find_def a)
  show ?case
    unfolding tf fl using Cons.IH
    by (simp add: overlaps_def intronic_update_def filter_map o_def)
qed

lemma node_updates_alt:
  "node_updates cmp_strand t refs bs n =
     map (exact_update cmp_strand t n) (vals_of n (node_pairs refs bs))
     @ map (intronic_update cmp_strand t n)
         (filter (\<lambda>kv. overlaps n (fst kv)) (flatten (ref_intron_dict refs)))"
proof -
  have 1: "(case map_of (ref_node_dict refs bs) n of
        None \<Rightarrow> []
      | Some rs \<Rightarrow>
          map (\<lambda>ref. (attr_transcript_id ref,
                 NodesAppend (if cmp_strand (t_strand t) (t_strand ref)
                              then SAME_STRAND else OPP_STRAND) n)) rs)
      = map (exact_update cmp_strand t n) (vals_of n (node_pairs refs bs))"
    by (simp add: ref_node_dict_alt map_of_dict_of exact_update_def)
  show ?thesis
    unfolding node_updates_def 1 intron_tree_def tree_hits_flatten ..
qed

lemma intron_updates_alt:
  "intron_updates t refs =
     concat (map (\<lambda>i. map (\<lambda>ref. (attr_transcript_id ref, IntronsAppend i))
                        (vals_of i (intron_pairs refs))) (intron_list t))"
proof -
  have "\<And>i. (case map_of (ref_intron_dict refs) i of
          None \<Rightarrow> []
        | Some rs \<Rightarrow> map (\<lambda>ref. (attr_transcript_id ref, IntronsAppend i)) rs)
       = map (\<lambda>ref. (attr_transcript_id ref, IntronsAppend i)) (vals_of i (intron_pairs refs))"
    by (simp add: ref_intron_dict_alt map_of_dict_of)
  thus ?thesis by (simp add: intron_updates_def)
qed

lemma splicing_updates_alt:
  "splicing_updates t refs =
     (if intron_list t \<noteq> []
      then map (\<lambda>ref. (attr_transcript_id ref, SplicingTrue))
             (vals_of (intron_list t) (pattern_pairs refs))
      else [])"
  by (simp add: splicing_updates_def ref_splicing_patterns_def pattern_pairs_def
      map_of_dict_of)

lemma set_vals_node_pairs:
  "set (vals_of n (node_pairs refs bs)) = {ref \<in> set refs. n \<in> set (split_exons ref bs)}"
  by (auto simp: set_vals_of node_pairs_def)

lemma set_intron_pairs:
  "set (intron_pairs refs) = {(i, ref). ref \<in> set refs \<and> i \<in> set (intron_list ref)}"
  by (auto simp: intron_pairs_def)

lemma set_vals_intron_pairs:
  "set (vals_of i (intron_pairs refs)) = {ref \<in> set refs. i \<in> set (intron_list ref)}"
  by (auto simp: set_vals_of set_intron_pairs)

lemma set_vals_pattern_pairs:
  "set (vals_of p (pattern_pairs refs)) = {ref \<in> set refs. intron_list ref = p \<and> p \<noteq> []}"
  by (auto simp: set_vals_of pattern_pairs_def split: if_splits)

lemma set_flatten_intron_dict:
  "set (flatten (ref_intron_dict refs)) = set (intron_pairs refs)"
  using mset_flatten_dict_of[of "intron_pairs refs"]
  by (simp only: ref_intron_dict_alt) (rule mset_eq_setD)

lemma fst_exact_update [simp]: "fst (exact_update cmp_strand t n ref) = attr_transcript_id ref"
  by (simp add: exact_update_def)

lemma fst_intronic_update [simp]:
  "fst (intronic_update cmp_strand t n kv) = attr_transcript_id (snd kv)"
  by (simp add: intronic_update_def)

lemma keys_node_updates:
  "fst ` set (node_updates cmp_strand t refs bs n) =
     {attr_transcript_id ref |ref. ref \<in> set refs \<and>
        (n \<in> set (split_exons ref bs) \<or> (\<exists>i\<in>set (intron_list ref). overlaps n i))}"
proof -
  have "fst ` set (node_updates cmp_strand t refs bs n) =
      attr_transcript_id ` {ref \<in> set refs. n \<in> set (split_exons ref bs)}
      \<union> (\<lambda>kv. attr_transcript_id (snd kv)) `
          {kv \<in> set (intron_pairs refs). overlaps n (fst kv)}"
    unfolding node_updates_alt
    by (simp add: image_Un image_image set_vals_node_pairs set_flatten_intron_dict)
  also have "\<dots> = {attr_transcript_id ref |ref. ref \<in> set refs \<and>
        (n \<in> set (split_exons ref bs) \<or> (\<exists>i\<in>set (intron_list ref). overlaps n i))}"
    unfolding set_intron_pairs by force
  finally show ?thesis .
qed

section \<open>Properties of compare_locus\<close>

lemma keys_intron_updates:
  "fst ` set (intron_updates t refs) =
     {attr_transcript_id ref |ref. ref \<in> set refs \<and>
        (\<exists>i\<in>set (intron_list t). i \<in> set (intron_list ref))}"
  unfolding intron_updates_alt
  by (force simp: set_vals_intron_pairs image_iff)

lemma keys_splicing_updates:
  "fst ` set (splicing_updates t refs) \<subseteq> fst ` set (intron_updates t refs)"
proof -
  have "fst ` set (splicing_updates t refs) \<subseteq>
     {attr_transcript_id ref |ref. ref \<in> set refs \<and>
        (\<exists>i\<in>set (intron_list t). i \<in> set (intron_list ref))}"
  proof (cases "intron_list t = []")
    case True
    then show ?thesis by (simp add: splicing_updates_alt)
  next
    case False
    then obtain i where i: "i \<in> set (intron_list t)" by (cases "intron_list t") auto
    show ?thesis using False i
      by (force simp: splicing_updates_alt set_vals_pattern_pairs image_iff)
  qed
  thus ?thesis by (simp only: keys_intron_updates)
qed

lemma keys_matches_of:
  "fst ` set (matches_of cmp_strand t refs bs) =
     {attr_transcript_id ref |ref. ref \<in> set refs \<and>
        ((\<exists>n\<in>set (split_exons t bs). n \<in> set (split_exons ref bs))
         \<or> (\<exists>i\<in>set (intron_list t). i \<in> set (intron_list ref))
         \<or> (\<exists>n\<in>set (split_exons t bs). \<exists>i\<in>set (intron_list ref). overlaps n i))}"
proof -
  have "fst ` set (matches_of cmp_strand t refs bs) =
      (\<Union>n\<in>set (split_exons t bs). fst ` set (node_updates cmp_strand t refs bs n))
      \<union> fst ` set (intron_updates t refs) \<union> fst ` set (splicing_updates t refs)"
    by (simp add: matches_of_def keys_foldl all_updates_def image_Un image_UN)
  also have "\<dots> = (\<Union>n\<in>set (split_exons t bs). fst ` set (node_updates cmp_strand t refs bs n))
      \<union> fst ` set (intron_updates t refs)"
    using keys_splicing_updates[of t refs] by blast
  also have "\<dots> = {attr_transcript_id ref |ref. ref \<in> set refs \<and>
        ((\<exists>n\<in>set (split_exons t bs). n \<in> set (split_exons ref bs))
         \<or> (\<exists>i\<in>set (intron_list t). i \<in> set (intron_list ref))
         \<or> (\<exists>n\<in>set (split_exons t bs). \<exists>i\<in>set (intron_list ref). overlaps n i))}"
    unfolding keys_node_updates keys_intron_updates by blast
  finally show ?thesis .
qed

lemma ref_dict_Some:
  "ref_dict refs r = Some ref \<Longrightarrow> ref \<in> set refs \<and> attr_transcript_id ref = r"
  by (auto simp: ref_dict_def dest!: map_of_SomeD)

lemma pair_stats_Inr:
  assumes "pair_stats t refs nodes (r, m) = Inr ms"
  shows "\<exists>ref c. ref_dict refs r = Some ref \<and> decide_category m nodes = Inr c
           \<and> ms = from_transcript t ref (node_bp (m_nodes m SAME_STRAND))
                    (node_bp (m_nodes m OPP_STRAND)) (int (length (m_introns m)))
                    (m_splicing m) c 0"
  using assms by (auto simp: pair_stats_def Let_def split: option.splits sum.splits)

lemma pair_stats_ref_id:
  assumes "pair_stats t refs nodes entry = Inr ms"
  shows "ref_transcript_id ms = fst entry"
proof -
  obtain r m where e: "entry = (r, m)" by (cases entry)
  from pair_stats_Inr[OF assms[unfolded e]] obtain ref c where
    "ref_dict refs r = Some ref" "ms = from_transcript t ref (node_bp (m_nodes m SAME_STRAND))
                    (node_bp (m_nodes m OPP_STRAND)) (int (length (m_introns m)))
                    (m_splicing m) c 0" by blast
  thus ?thesis using ref_dict_Some[of refs r ref] by (simp add: e from_transcript_def)
qed

lemma yielded_rows:
  assumes "y \<in> set (fst (compare_locus fdiv cmp_strand h free transcripts))"
  shows "\<exists>stats.
     stats_loop (y_t y) (filter attr_ref transcripts)
        (split_exons (y_t y) (find_exon_boundaries transcripts))
        (matches_of cmp_strand (y_t y) (filter attr_ref transcripts)
           (find_exon_boundaries transcripts)) = Inr stats
     \<and> list_all2 relabelled stats (map (y_heap y) (y_match_stats y))
     \<and> y_t y \<in> set transcripts \<and> \<not> attr_ref (y_t y)"
proof -
  let ?refs = "filter attr_ref transcripts" and ?bs = "find_exon_boundaries transcripts"
  from assms obtain h0 free0 where
    t: "y_t y \<in> set (filter (\<lambda>t. \<not> attr_ref t) transcripts)"
    and c: "compare_transcript fdiv cmp_strand ?refs ?bs h0 free0 (y_t y) = Inr y"
    unfolding compare_locus_def Let_def by (blast dest: compare_tests_origin)
  from compare_transcript_Inr[OF c] obtain stats h1 where
    s: "stats_loop (y_t y) ?refs (split_exons (y_t y) ?bs)
          (matches_of cmp_strand (y_t y) ?refs ?bs) = Inr stats"
    and a: "alloc h0 free0 stats = (h1, y_match_stats y)"
    and b: "choose_best fdiv h1 (y_match_stats y) = Inr (y_best_match y, y_heap y)"
    by blast
  have m: "map h1 (y_match_stats y) = stats" using alloc_props[OF a] by blast
  have "\<forall>a. relabelled (h1 a) (y_heap y a)"
  proof
    fix a
    from choose_best_frame[OF b] show "relabelled (h1 a) (y_heap y a)"
    proof
      assume "y_heap y = h1"
      thus ?thesis by (simp add: relabelled_def)
    next
      assume "\<exists>w. y_best_match y = Some w \<and> w \<in> set (y_match_stats y)
                \<and> category (h1 w) = SAME_STRAND
                \<and> y_heap y = h1(w := (h1 w)\<lparr>category := READ_THROUGH\<rparr>)"
      then obtain w where "category (h1 w) = SAME_STRAND"
        "y_heap y = h1(w := (h1 w)\<lparr>category := READ_THROUGH\<rparr>)" by blast
      thus ?thesis by (cases "a = w") (simp_all add: relabelled_def)
    qed
  qed
  hence "list_all2 relabelled (map h1 (y_match_stats y)) (map (y_heap y) (y_match_stats y))"
    by (simp add: list_all2_conv_all_nth)
  thus ?thesis using s m t by auto
qed

lemma relabelled_fields:
  assumes "relabelled ms row"
  shows "ref_transcript_id row = ref_transcript_id ms" "shared_splicing row = shared_splicing ms"
    "shared_introns row = shared_introns ms" "num_introns row = num_introns ms"
    "ref_num_introns row = ref_num_introns ms" "row = ms\<lparr>category := category row\<rparr>"
  using assms by (auto simp: relabelled_def)

lemma list_all2_map_eq:
  "list_all2 P xs ys \<Longrightarrow> (\<And>x y. P x y \<Longrightarrow> f x = g y) \<Longrightarrow> map f xs = map g ys"
  by (induction rule: list_all2_induct) auto

text \<open>
  Claim C3, amended. For every triple that \<open>compare_locus\<close> yields, the reference
  ids of its rows are exactly the ids of the reference transcripts of the locus that
  share an exact node with the test transcript, or share an exact intron with it,
  or have an intron that overlaps one of its nodes.
\<close>

theorem compare_locus_candidates:
  assumes "y \<in> set (fst (compare_locus fdiv cmp_strand h free transcripts))"
  shows "set (map (\<lambda>a. ref_transcript_id (y_heap y a)) (y_match_stats y)) =
     {attr_transcript_id ref |ref. ref \<in> set transcripts \<and> attr_ref ref \<and>
        ((\<exists>n\<in>set (split_exons (y_t y) (find_exon_boundaries transcripts)).
             n \<in> set (split_exons ref (find_exon_boundaries transcripts)))
         \<or> (\<exists>i\<in>set (intron_list (y_t y)). i \<in> set (intron_list ref))
         \<or> (\<exists>n\<in>set (split_exons (y_t y) (find_exon_boundaries transcripts)).
               \<exists>i\<in>set (intron_list ref). overlaps n i))}"
proof -
  let ?refs = "filter attr_ref transcripts" and ?bs = "find_exon_boundaries transcripts"
  let ?ms = "matches_of cmp_strand (y_t y) ?refs ?bs"
  from yielded_rows[OF assms] obtain stats where
    s: "stats_loop (y_t y) ?refs (split_exons (y_t y) ?bs) ?ms = Inr stats"
    and r: "list_all2 relabelled stats (map (y_heap y) (y_match_stats y))" by blast
  have 1: "map ref_transcript_id stats = map ref_transcript_id (map (y_heap y) (y_match_stats y))"
    using r by (rule list_all2_map_eq) (simp add: relabelled_fields)
  have 2: "map fst ?ms = map ref_transcript_id stats"
    using stats_loop_Inr[OF s] by (rule list_all2_map_eq) (simp add: pair_stats_ref_id)
  have "set (map (\<lambda>a. ref_transcript_id (y_heap y a)) (y_match_stats y))
        = set (map ref_transcript_id (map (y_heap y) (y_match_stats y)))"
    by (simp add: o_def)
  also have "\<dots> = fst ` set ?ms" using 1 2 by (metis set_map)
  finally show ?thesis unfolding keys_matches_of by auto
qed

lemma ex2_len: "length (fst (compare_locus ex_fdiv ex_cmp ex_heap 0 ex_locus2)) = 1"
  by code_simp

text \<open>
  Claim C3, as stated, fails: a test transcript inside the intron of a reference
  shares neither a node nor an intron with it, and a row is emitted for the pair.
\<close>

theorem compare_locus_candidates_counterexample:
  "map (\<lambda>y. map (\<lambda>a. (ref_transcript_id (y_heap y a), category (y_heap y a))) (y_match_stats y))
       (fst (compare_locus ex_fdiv ex_cmp ex_heap 0 ex_locus2)) = [[(''r1'', INTRONIC_OPP_STRAND)]]
   \<and> set (split_exons ex_inner (find_exon_boundaries ex_locus2))
       \<inter> set (split_exons ex_ref1 (find_exon_boundaries ex_locus2)) = {}
   \<and> set (intron_list ex_inner) \<inter> set (intron_list ex_ref1) = {}"
  by code_simp

lemma matches_entry:
  assumes "(r, m) \<in> set (matches_of cmp_strand t refs bs)"
  shows "m = apply_updates Match_init (vals_of r (all_updates cmp_strand t refs bs))"
proof -
  have d: "distinct (map fst (matches_of cmp_strand t refs bs))"
    unfolding matches_of_def by (rule distinct_foldl) simp
  have "acc_of (matches_of cmp_strand t refs bs) r = m"
    using d assms by (rule acc_of_entry)
  moreover have "acc_of ([] :: (string \<times> Match) list) r = Match_init"
    by (simp add: acc_of_def)
  ultimately show ?thesis by (simp add: matches_of_def acc_of_foldl)
qed

lemma splicing_update_needs_introns:
  assumes "SplicingTrue \<in> set (vals_of r (all_updates cmp_strand t refs bs))"
  shows "intron_list t \<noteq> []"
proof -
  have "(r, SplicingTrue) \<in> set (all_updates cmp_strand t refs bs)"
    using assms by (simp add: set_vals_of)
  hence "(r, SplicingTrue) \<in> set (splicing_updates t refs)"
    by (auto simp: all_updates_def node_updates_alt intron_updates_alt
        exact_update_def intronic_update_def)
  thus ?thesis by (auto simp: splicing_updates_alt split: if_splits)
qed

lemma list_all2_in_set2:
  "list_all2 P xs ys \<Longrightarrow> y \<in> set ys \<Longrightarrow> \<exists>x\<in>set xs. P x y"
  by (induction rule: list_all2_induct) auto

lemma list_all2_in_set1:
  "list_all2 P xs ys \<Longrightarrow> x \<in> set xs \<Longrightarrow> \<exists>y\<in>set ys. P x y"
  by (induction rule: list_all2_induct) auto

lemma intron_list_Nil: "intron_list t = [] \<longleftrightarrow> iterintrons t = []"
  by (simp add: intron_list_def)

text \<open>
  Claim C10. For a test transcript without introns, every record that
  \<open>compare_locus\<close> yields for it has \<open>shared_splicing\<close> false.
\<close>

theorem single_exon_no_shared_splicing:
  assumes "y \<in> set (fst (compare_locus fdiv cmp_strand h free transcripts))"
    and "iterintrons (y_t y) = []"
  shows "\<forall>a\<in>set (y_match_stats y). \<not> shared_splicing (y_heap y a)"
proof -
  let ?refs = "filter attr_ref transcripts" and ?bs = "find_exon_boundaries transcripts"
  let ?ms = "matches_of cmp_strand (y_t y) ?refs ?bs"
  from yielded_rows[OF assms(1)] obtain stats where
    s: "stats_loop (y_t y) ?refs (split_exons (y_t y) ?bs) ?ms = Inr stats"
    and r: "list_all2 relabelled stats (map (y_heap y) (y_match_stats y))" by blast
  have st: "\<forall>ms\<in>set stats. \<not> shared_splicing ms"
  proof
    fix ms assume "ms \<in> set stats"
    then obtain entry where e: "entry \<in> set ?ms"
      and p: "pair_stats (y_t y) ?refs (split_exons (y_t y) ?bs) entry = Inr ms"
      using list_all2_in_set2[OF stats_loop_Inr[OF s]] by blast
    obtain r m where rm: "entry = (r, m)" by (cases entry)
    have m: "m = apply_updates Match_init (vals_of r (all_updates cmp_strand (y_t y) ?refs ?bs))"
      using e rm matches_entry by blast
    have "\<not> m_splicing m"
      using splicing_update_needs_introns[of r cmp_strand "y_t y" ?refs ?bs] assms(2)
      by (auto simp: m m_splicing_apply_updates Match_init_def intron_list_Nil)
    moreover have "shared_splicing ms = m_splicing m"
      using pair_stats_Inr[OF p[unfolded rm]] by (auto simp: from_transcript_def)
    ultimately show "\<not> shared_splicing ms" by simp
  qed
  show ?thesis
  proof
    fix a assume "a \<in> set (y_match_stats y)"
    hence "y_heap y a \<in> set (map (y_heap y) (y_match_stats y))" by simp
    from list_all2_in_set2[OF r this] obtain ms where
      "ms \<in> set stats" "relabelled ms (y_heap y a)" by blast
    thus "\<not> shared_splicing (y_heap y a)" using st by (simp add: relabelled_fields)
  qed
qed

lemma length_1_hd_in: "length xs = 1 \<Longrightarrow> hd xs \<in> set xs"
  by (cases xs) auto

lemma ex3_len: "length (fst (compare_locus ex_fdiv ex_cmp ex_heap 0 ex_locus3)) = 1"
  by code_simp

text \<open>
  Claim C10 on a single-exon test transcript and a single-exon reference with the
  same coordinates and strand: the pair is SAME_STRAND without shared splicing.
\<close>

theorem single_exon_no_shared_splicing_witness:
  "iterintrons (y_t (hd (fst (compare_locus ex_fdiv ex_cmp ex_heap 0 ex_locus3)))) = []
   \<and> map (\<lambda>a. category (y_heap (hd (fst (compare_locus ex_fdiv ex_cmp ex_heap 0 ex_locus3))) a))
        (y_match_stats (hd (fst (compare_locus ex_fdiv ex_cmp ex_heap 0 ex_locus3)))) = [SAME_STRAND]
   \<and> y_match_stats (hd (fst (compare_locus ex_fdiv ex_cmp ex_heap 0 ex_locus3))) = [0]
   \<and> \<not> shared_splicing (y_heap (hd (fst (compare_locus ex_fdiv ex_cmp ex_heap 0 ex_locus3))) 0)"
proof -
  define y where "y = hd (fst (compare_locus ex_fdiv ex_cmp ex_heap 0 ex_locus3))"
  have mem: "y \<in> set (fst (compare_locus ex_fdiv ex_cmp ex_heap 0 ex_locus3))"
    unfolding y_def using ex3_len by (rule length_1_hd_in)
  have h2: "iterintrons (y_t y) = []" unfolding y_def by code_simp
  have c: "map (\<lambda>a. category (y_heap y a)) (y_match_stats y) = [SAME_STRAND]"
    unfolding y_def by code_simp
  have a: "y_match_stats y = [0]" unfolding y_def by code_simp
  have "0 \<in> set (y_match_stats y)" by (simp only: a) simp
  with single_exon_no_shared_splicing[OF mem h2]
  have "\<not> shared_splicing (y_heap y 0)" by (rule bspec)
  with h2 c a show ?thesis unfolding y_def by (intro conjI)
qed

text \<open>The amended claim C3 on the sample locus of the intronic test transcript.\<close>

theorem compare_locus_candidates_witness:
  "hd (fst (compare_locus ex_fdiv ex_cmp ex_heap 0 ex_locus2))
     \<in> set (fst (compare_locus ex_fdiv ex_cmp ex_heap 0 ex_locus2))
   \<and> map (\<lambda>a. ref_transcript_id (y_heap (hd (fst (compare_locus ex_fdiv ex_cmp ex_heap 0 ex_locus2))) a))
        (y_match_stats (hd (fst (compare_locus ex_fdiv ex_cmp ex_heap 0 ex_locus2)))) = [''r1'']
   \<and> ''r1'' \<in> {attr_transcript_id ref |ref. ref \<in> set ex_locus2 \<and> attr_ref ref \<and>
        ((\<exists>n\<in>set (split_exons ex_inner (find_exon_boundaries ex_locus2)).
             n \<in> set (split_exons ref (find_exon_boundaries ex_locus2)))
         \<or> (\<exists>i\<in>set (intron_list ex_inner). i \<in> set (intron_list ref))
         \<or> (\<exists>n\<in>set (split_exons ex_inner (find_exon_boundaries ex_locus2)).
               \<exists>i\<in>set (intron_list ref). overlaps n i))}"
proof -
  define y where "y = hd (fst (compare_locus ex_fdiv ex_cmp ex_heap 0 ex_locus2))"
  have mem: "y \<in> set (fst (compare_locus ex_fdiv ex_cmp ex_heap 0 ex_locus2))"
    unfolding y_def using ex2_len by (rule length_1_hd_in)
  have ids: "map (\<lambda>a. ref_transcript_id (y_heap y a)) (y_match_stats y) = [''r1'']"
    unfolding y_def by code_simp
  have t: "y_t y = ex_inner" unfolding y_def by code_simp
  have "''r1'' \<in> set (map (\<lambda>a. ref_transcript_id (y_heap y a)) (y_match_stats y))"
    by (simp only: ids) simp
  hence "''r1'' \<in> {attr_transcript_id ref |ref. ref \<in> set ex_locus2 \<and> attr_ref ref \<and>
        ((\<exists>n\<in>set (split_exons ex_inner (find_exon_boundaries ex_locus2)).
             n \<in> set (split_exons ref (find_exon_boundaries ex_locus2)))
         \<or> (\<exists>i\<in>set (intron_list ex_inner). i \<in> set (intron_list ref))
         \<or> (\<exists>n\<in>set (split_exons ex_inner (find_exon_boundaries ex_locus2)).
               \<exists>i\<in>set (intron_list ref). overlaps n i))}"
    by (simp only: compare_locus_candidates[OF mem] t)
  with mem ids show ?thesis unfolding y_def by (intro conjI)
qed

lemma yielded_parts:
  assumes "y \<in> set (fst (compare_locus fdiv cmp_strand h free transcripts))"
  shows "\<exists>stats h0 free0 h1.
     stats_loop (y_t y) (filter attr_ref transcripts)
        (split_exons (y_t y) (find_exon_boundaries transcripts))
        (matches_of cmp_strand (y_t y) (filter attr_ref transcripts)
           (find_exon_boundaries transcripts)) = Inr stats
     \<and> alloc h0 free0 stats = (h1, y_match_stats y)
     \<and> choose_best fdiv h1 (y_match_stats y) = Inr (y_best_match y, y_heap y)"
proof -
  let ?refs = "filter attr_ref transcripts" and ?bs = "find_exon_boundaries transcripts"
  from assms obtain h0 free0 where
    c: "compare_transcript fdiv cmp_strand ?refs ?bs h0 free0 (y_t y) = Inr y"
    unfolding compare_locus_def Let_def by (blast dest: compare_tests_origin)
  from compare_transcript_Inr[OF c] show ?thesis by blast
qed

lemma same_strand_ids_stats:
  assumes "map h1 addrs = stats"
  shows "same_strand_ids h1 (set addrs)
         = {ref_gene_id ms |ms. ms \<in> set stats \<and> category ms = SAME_STRAND}"
proof -
  have "set stats = h1 ` set addrs" using assms by auto
  thus ?thesis by (auto simp: same_strand_ids_def)
qed

lemma best_match_of_rows:
  assumes a: "alloc h0 free0 stats = (h1, addrs)"
    and b: "choose_best fdiv h1 addrs = Inr (best, h2)"
  shows "(stats = [] \<longrightarrow> best = None)
       \<and> (stats \<noteq> [] \<longrightarrow>
            (\<exists>i<length stats. best = Some (addrs ! i)
               \<and> category (h2 (addrs ! i)) =
                   (if category (stats ! i) = SAME_STRAND
                       \<and> 2 \<le> card {ref_gene_id ms |ms. ms \<in> set stats \<and> category ms = SAME_STRAND}
                    then READ_THROUGH else category (stats ! i))))"
proof -
  have ad: "addrs = [free0..<free0 + length stats]" and m: "map h1 addrs = stats"
    using alloc_props[OF a] by blast+
  have len: "length addrs = length stats" using ad by simp
  show ?thesis
  proof (cases "stats = []")
    case True
    hence "addrs = []" using len by simp
    thus ?thesis using b True by (simp add: choose_best_def)
  next
    case False
    hence ne: "addrs \<noteq> []" using len by auto
    let ?w = "winner fdiv h1 (set addrs)"
    have df: "\<forall>a\<in>set addrs. fracs_defined (h1 a)"
      using choose_best_cases[OF ne, of fdiv h1] b by (auto split: if_splits)
    have best: "best = Some ?w"
      and h2: "h2 = (if category (h1 ?w) = SAME_STRAND \<and> card (same_strand_ids h1 (set addrs)) > 1
                     then h1(?w := (h1 ?w)\<lparr>category := READ_THROUGH\<rparr>) else h1)"
      using choose_best_cases[OF ne, of fdiv h1] b df by (auto split: if_splits)
    have "?w \<in> set addrs" by (rule winner_in(1)) (use ne in auto)
    then obtain i where i: "i < length addrs" "addrs ! i = ?w" by (auto simp: in_set_conv_nth)
    have hi: "h1 ?w = stats ! i" using m i by (metis nth_map)
    have two: "card (same_strand_ids h1 (set addrs)) > 1 \<longleftrightarrow>
        2 \<le> card {ref_gene_id ms |ms. ms \<in> set stats \<and> category ms = SAME_STRAND}"
      unfolding same_strand_ids_stats[OF m] by auto
    have "category (h2 ?w) =
                   (if category (stats ! i) = SAME_STRAND
                       \<and> 2 \<le> card {ref_gene_id ms |ms. ms \<in> set stats \<and> category ms = SAME_STRAND}
                    then READ_THROUGH else category (stats ! i))"
      unfolding h2 two hi[symmetric] by simp
    thus ?thesis using False best i len by auto
  qed
qed

text \<open>
  Claim C5, amended. For every triple that \<open>compare_locus\<close> yields, the objects
  of \<open>match_stats\<close> are distinct; every one other than the best match still
  equals the record the pairwise classifier created; the best match equals its
  record in every attribute but the category. When there are rows, the best match
  is one of them and is the row written to the summary report, and its category,
  in the detail rows as in the summary row, is READ_THROUGH if the classifier
  assigned SAME_STRAND to it and the SAME_STRAND records name at least two distinct
  reference gene ids, and the classifier's category otherwise. Without rows there
  is no best match and nothing is written.
\<close>

theorem detail_rows_after_choose_best:
  assumes "y \<in> set (fst (compare_locus fdiv cmp_strand h free transcripts))"
  shows "\<exists>stats.
     stats_loop (y_t y) (filter attr_ref transcripts)
        (split_exons (y_t y) (find_exon_boundaries transcripts))
        (matches_of cmp_strand (y_t y) (filter attr_ref transcripts)
           (find_exon_boundaries transcripts)) = Inr stats
     \<and> length (y_match_stats y) = length stats \<and> distinct (y_match_stats y)
     \<and> (\<forall>i<length stats.
           (Some (y_match_stats y ! i) \<noteq> y_best_match y \<longrightarrow>
              y_heap y (y_match_stats y ! i) = stats ! i)
           \<and> y_heap y (y_match_stats y ! i)
               = (stats ! i)\<lparr>category := category (y_heap y (y_match_stats y ! i))\<rparr>)
     \<and> (stats = [] \<longrightarrow> y_best_match y = None \<and> written_rows y = Inr (None, []))
     \<and> (stats \<noteq> [] \<longrightarrow>
           (\<exists>i<length stats. y_best_match y = Some (y_match_stats y ! i)
              \<and> category (y_heap y (y_match_stats y ! i)) =
                  (if category (stats ! i) = SAME_STRAND
                      \<and> 2 \<le> card {ref_gene_id ms |ms. ms \<in> set stats \<and> category ms = SAME_STRAND}
                   then READ_THROUGH else category (stats ! i))
              \<and> written_rows y = Inr (Some (y_heap y (y_match_stats y ! i)),
                                       map (y_heap y) (y_match_stats y))))"
proof -
  from yielded_parts[OF assms] obtain stats h0 free0 h1 where
    s: "stats_loop (y_t y) (filter attr_ref transcripts)
        (split_exons (y_t y) (find_exon_boundaries transcripts))
        (matches_of cmp_strand (y_t y) (filter attr_ref transcripts)
           (find_exon_boundaries transcripts)) = Inr stats"
    and a: "alloc h0 free0 stats = (h1, y_match_stats y)"
    and b: "choose_best fdiv h1 (y_match_stats y) = Inr (y_best_match y, y_heap y)"
    by blast
  have ad: "y_match_stats y = [free0..<free0 + length stats]"
    and m: "map h1 (y_match_stats y) = stats"
    using alloc_props[OF a] by blast+
  have len: "length (y_match_stats y) = length stats" using ad by simp
  have dis: "distinct (y_match_stats y)" by (subst ad) simp
  have rows: "\<forall>i<length stats.
           (Some (y_match_stats y ! i) \<noteq> y_best_match y \<longrightarrow>
              y_heap y (y_match_stats y ! i) = stats ! i)
           \<and> y_heap y (y_match_stats y ! i)
               = (stats ! i)\<lparr>category := category (y_heap y (y_match_stats y ! i))\<rparr>"
  proof (intro allI impI)
    fix i assume i: "i < length stats"
    have h1i: "h1 (y_match_stats y ! i) = stats ! i"
      using m i len by (metis nth_map)
    from choose_best_frame[OF b]
    show "(Some (y_match_stats y ! i) \<noteq> y_best_match y \<longrightarrow>
              y_heap y (y_match_stats y ! i) = stats ! i)
           \<and> y_heap y (y_match_stats y ! i)
               = (stats ! i)\<lparr>category := category (y_heap y (y_match_stats y ! i))\<rparr>"
    proof
      assume "y_heap y = h1"
      thus ?thesis using h1i by simp
    next
      assume "\<exists>w. y_best_match y = Some w \<and> w \<in> set (y_match_stats y)
                \<and> category (h1 w) = SAME_STRAND
                \<and> y_heap y = h1(w := (h1 w)\<lparr>category := READ_THROUGH\<rparr>)"
      then obtain w where w: "y_best_match y = Some w"
        "y_heap y = h1(w := (h1 w)\<lparr>category := READ_THROUGH\<rparr>)" by blast
      show ?thesis using w h1i by (cases "y_match_stats y ! i = w") simp_all
    qed
  qed
  note bm = best_match_of_rows[OF a b]
  have e: "stats = [] \<longrightarrow> y_best_match y = None \<and> written_rows y = Inr (None, [])"
  proof
    assume n: "stats = []"
    hence "y_best_match y = None" using bm by blast
    moreover have "y_match_stats y = []" using n len by simp
    ultimately show "y_best_match y = None \<and> written_rows y = Inr (None, [])"
      by (simp add: written_rows_def)
  qed
  have ne: "stats \<noteq> [] \<longrightarrow>
           (\<exists>i<length stats. y_best_match y = Some (y_match_stats y ! i)
              \<and> category (y_heap y (y_match_stats y ! i)) =
                  (if category (stats ! i) = SAME_STRAND
                      \<and> 2 \<le> card {ref_gene_id ms |ms. ms \<in> set stats \<and> category ms = SAME_STRAND}
                   then READ_THROUGH else category (stats ! i))
              \<and> written_rows y = Inr (Some (y_heap y (y_match_stats y ! i)),
                                       map (y_heap y) (y_match_stats y)))"
  proof
    assume n: "stats \<noteq> []"
    then obtain i where i: "i < length stats" "y_best_match y = Some (y_match_stats y ! i)"
      "category (y_heap y (y_match_stats y ! i)) =
                  (if category (stats ! i) = SAME_STRAND
                      \<and> 2 \<le> card {ref_gene_id ms |ms. ms \<in> set stats \<and> category ms = SAME_STRAND}
                   then READ_THROUGH else category (stats ! i))"
      using bm by blast
    have "y_match_stats y \<noteq> []" using n len by auto
    hence "written_rows y = Inr (Some (y_heap y (y_match_stats y ! i)),
                                       map (y_heap y) (y_match_stats y))"
      using i(2) by (simp add: written_rows_def)
    with i show "\<exists>i<length stats. y_best_match y = Some (y_match_stats y ! i)
              \<and> category (y_heap y (y_match_stats y ! i)) =
                  (if category (stats ! i) = SAME_STRAND
                      \<and> 2 \<le> card {ref_gene_id ms |ms. ms \<in> set stats \<and> category ms = SAME_STRAND}
                   then READ_THROUGH else category (stats ! i))
              \<and> written_rows y = Inr (Some (y_heap y (y_match_stats y ! i)),
                                       map (y_heap y) (y_match_stats y))"
      by blast
  qed
  show ?thesis
    apply (rule exI[of _ stats])
    apply (intro conjI)
         apply (rule s)
        apply (rule len)
       apply (rule dis)
      apply (rule rows)
     apply (rule e)
    apply (rule ne)
    done
qed

text \<open>
  Claim C5, as stated, fails: for a test transcript overlapping two genes, the rows
  written to the detail report carry READ_THROUGH and SAME_STRAND, where the
  pairwise classifier assigned SAME_STRAND twice.
\<close>

theorem detail_rows_after_choose_best_counterexample:
  "map (\<lambda>y. case written_rows y of
               Inl e \<Rightarrow> (None, [])
             | Inr (b, rows) \<Rightarrow> (map_option category b, map category rows))
       (fst (compare_locus ex_fdiv ex_cmp ex_heap 0 ex_locus))
     = [(Some READ_THROUGH, [READ_THROUGH, SAME_STRAND])]
   \<and> (case stats_loop ex_test (filter attr_ref ex_locus)
              (split_exons ex_test (find_exon_boundaries ex_locus))
              (matches_of ex_cmp ex_test (filter attr_ref ex_locus)
                 (find_exon_boundaries ex_locus)) of
         Inl e \<Rightarrow> []
       | Inr stats \<Rightarrow> map category stats) = [SAME_STRAND, SAME_STRAND]"
  by code_simp

lemma ex1_len: "length (fst (compare_locus ex_fdiv ex_cmp ex_heap 0 ex_locus)) = 1"
  by code_simp

text \<open>The amended claim C5 on the sample locus: the second row is the classifier's.\<close>

theorem detail_rows_after_choose_best_witness:
  "hd (fst (compare_locus ex_fdiv ex_cmp ex_heap 0 ex_locus))
     \<in> set (fst (compare_locus ex_fdiv ex_cmp ex_heap 0 ex_locus))
   \<and> y_match_stats (hd (fst (compare_locus ex_fdiv ex_cmp ex_heap 0 ex_locus))) = [0, Suc 0]
   \<and> y_best_match (hd (fst (compare_locus ex_fdiv ex_cmp ex_heap 0 ex_locus))) = Some 0
   \<and> (\<exists>stats.
     stats_loop ex_test (filter attr_ref ex_locus)
        (split_exons ex_test (find_exon_boundaries ex_locus))
        (matches_of ex_cmp ex_test (filter attr_ref ex_locus)
           (find_exon_boundaries ex_locus)) = Inr stats
     \<and> length stats = 2
     \<and> y_heap (hd (fst (compare_locus ex_fdiv ex_cmp ex_heap 0 ex_locus))) (Suc 0) = stats ! 1
     \<and> written_rows (hd (fst (compare_locus ex_fdiv ex_cmp ex_heap 0 ex_locus)))
         = Inr (Some (y_heap (hd (fst (compare_locus ex_fdiv ex_cmp ex_heap 0 ex_locus))) 0),
                map (y_heap (hd (fst (compare_locus ex_fdiv ex_cmp ex_heap 0 ex_locus))))
                  [0, Suc 0]))"
proof -
  define y where "y = hd (fst (compare_locus ex_fdiv ex_cmp ex_heap 0 ex_locus))"
  have mem: "y \<in> set (fst (compare_locus ex_fdiv ex_cmp ex_heap 0 ex_locus))"
    unfolding y_def using ex1_len by (rule length_1_hd_in)
  have a: "y_match_stats y = [0, Suc 0]" unfolding y_def by code_simp
  have b: "y_best_match y = Some 0" unfolding y_def by code_simp
  have t: "y_t y = ex_test" unfolding y_def by code_simp
  from detail_rows_after_choose_best[OF mem] obtain stats where
    s: "stats_loop (y_t y) (filter attr_ref ex_locus)
        (split_exons (y_t y) (find_exon_boundaries ex_locus))
        (matches_of ex_cmp (y_t y) (filter attr_ref ex_locus)
           (find_exon_boundaries ex_locus)) = Inr stats"
    and l: "length (y_match_stats y) = length stats"
    and r: "\<forall>i<length stats.
           (Some (y_match_stats y ! i) \<noteq> y_best_match y \<longrightarrow>
              y_heap y (y_match_stats y ! i) = stats ! i)
           \<and> y_heap y (y_match_stats y ! i)
               = (stats ! i)\<lparr>category := category (y_heap y (y_match_stats y ! i))\<rparr>"
    and n: "stats \<noteq> [] \<longrightarrow>
           (\<exists>i<length stats. y_best_match y = Some (y_match_stats y ! i)
              \<and> category (y_heap y (y_match_stats y ! i)) =
                  (if category (stats ! i) = SAME_STRAND
                      \<and> 2 \<le> card {ref_gene_id ms |ms. ms \<in> set stats \<and> category ms = SAME_STRAND}
                   then READ_THROUGH else category (stats ! i))
              \<and> written_rows y = Inr (Some (y_heap y (y_match_stats y ! i)),
                                       map (y_heap y) (y_match_stats y)))"
    by (elim exE conjE)
  have l2: "length stats = 2" using l a by simp
  hence "Some (y_match_stats y ! 1) \<noteq> y_best_match y \<longrightarrow>
              y_heap y (y_match_stats y ! 1) = stats ! 1" using r by simp
  hence r1: "y_heap y (Suc 0) = stats ! 1" by (simp add: a b)
  have "stats \<noteq> []" using l2 by auto
  with n obtain i where "y_best_match y = Some (y_match_stats y ! i)"
    "written_rows y = Inr (Some (y_heap y (y_match_stats y ! i)), map (y_heap y) (y_match_stats y))"
    by blast
  hence wr: "written_rows y = Inr (Some (y_heap y 0), map (y_heap y) [0, Suc 0])"
    using a b by simp
  have ex: "\<exists>stats.
     stats_loop ex_test (filter attr_ref ex_locus)
        (split_exons ex_test (find_exon_boundaries ex_locus))
        (matches_of ex_cmp ex_test (filter attr_ref ex_locus)
           (find_exon_boundaries ex_locus)) = Inr stats
     \<and> length stats = 2 \<and> y_heap y (Suc 0) = stats ! 1
     \<and> written_rows y = Inr (Some (y_heap y 0), map (y_heap y) [0, Suc 0])"
    using s[unfolded t] l2 r1 wr by (intro exI[of _ stats] conjI)
  from mem a b ex show ?thesis unfolding y_def by (intro conjI)
qed

subsection \<open>Nodes and introns of well-formed transcripts\<close>

section \<open>Segmentation\<close>

lemma zip_tl_between:
  fixes pts :: "int list"
  shows "sorted pts \<Longrightarrow> (a, b) \<in> set (zip pts (tl pts)) \<Longrightarrow> x \<in> set pts
         \<Longrightarrow> \<not> (a < x \<and> x < b)"
proof (induction pts)
  case Nil
  then show ?case by simp
next
  case (Cons p pts)
  show ?case
  proof (cases pts)
    case Nil
    then show ?thesis using Cons.prems by simp
  next
    case (Cons q rest)
    have sp: "sorted pts" and le: "\<forall>z\<in>set pts. p \<le> z" using Cons.prems(1) by auto
    from Cons.prems(2) Cons have "(a, b) = (p, q) \<or> (a, b) \<in> set (zip pts (tl pts))" by auto
    thus ?thesis
    proof
      assume "(a, b) = (p, q)"
      hence ab: "a = p" "b = q" by simp_all
      have "\<forall>z\<in>set pts. q \<le> z" using sp Cons by auto
      thus ?thesis using Cons.prems(3) ab by auto
    next
      assume in': "(a, b) \<in> set (zip pts (tl pts))"
      hence "a \<in> set pts" by (auto dest: set_zip_leftD)
      hence pa: "p \<le> a" using le by simp
      show ?thesis
      proof (cases "x = p")
        case True
        then show ?thesis using pa by simp
      next
        case False
        hence "x \<in> set pts" using Cons.prems(3) by simp
        from Cons.IH[OF sp in' this] show ?thesis .
      qed
    qed
  qed
qed

lemma zip_tl_increasing:
  fixes pts :: "int list"
  shows "sorted_wrt (<) pts \<Longrightarrow> (a, b) \<in> set (zip pts (tl pts)) \<Longrightarrow> a < b"
proof (induction pts)
  case Nil
  then show ?case by simp
next
  case (Cons p pts)
  show ?case
  proof (cases pts)
    case Nil
    then show ?thesis using Cons.prems by simp
  next
    case (Cons q rest)
    from Cons.prems(2) Cons have "(a, b) = (p, q) \<or> (a, b) \<in> set (zip pts (tl pts))" by auto
    thus ?thesis using Cons.prems(1) Cons.IH Cons by auto
  qed
qed

lemma split_exon_alt: "split_exon ex bs = zip (cut_points ex bs) (tl (cut_points ex bs))"
  by (simp add: split_exon_def cut_points_def Let_def)

lemma sorted_cut_points:
  assumes "sorted bs" "fst ex < snd ex"
  shows "sorted (cut_points ex bs)"
  using assms by (auto simp: cut_points_def sorted_append intro: sorted_wrt_filter)

lemma strict_sorted_cut_points:
  assumes "sorted_wrt (<) bs" "fst ex < snd ex"
  shows "sorted_wrt (<) (cut_points ex bs)"
  using assms by (auto simp: cut_points_def sorted_wrt_append sorted_wrt_filter)

lemma split_exon_no_boundary_inside:
  assumes "sorted bs" "n \<in> set (split_exon ex bs)" "x \<in> set bs"
  shows "\<not> (fst n < x \<and> x < snd n)"
proof (cases "fst ex < snd ex")
  case True
  obtain a b where n: "n = (a, b)" by (cases n)
  have in': "(a, b) \<in> set (zip (cut_points ex bs) (tl (cut_points ex bs)))"
    using assms(2) n by (simp add: split_exon_alt)
  have s: "sorted (cut_points ex bs)" using assms(1) True by (rule sorted_cut_points)
  have a: "a \<in> set (cut_points ex bs)" using in' by (auto dest: set_zip_leftD)
  have b: "b \<in> set (tl (cut_points ex bs))" using in' by (auto dest: set_zip_rightD)
  have lo: "fst ex \<le> a" using a True by (auto simp: cut_points_def)
  have hi: "b \<le> snd ex" using b True by (auto simp: cut_points_def)
  show ?thesis
  proof
    assume x: "fst n < x \<and> x < snd n"
    hence "fst ex < x \<and> x < snd ex" using lo hi n by simp
    hence "x \<in> set (cut_points ex bs)" using assms(3) by (simp add: cut_points_def)
    from zip_tl_between[OF s in' this] x n show False by simp
  qed
next
  case False
  hence "filter (\<lambda>b. fst ex < b \<and> b < snd ex) bs = []" by (auto simp: filter_empty_conv)
  hence "split_exon ex bs = [ex]" by (simp add: split_exon_def Let_def)
  thus ?thesis using assms(2) False by auto
qed

lemma split_exon_positive:
  assumes "sorted_wrt (<) bs" "fst ex < snd ex" "n \<in> set (split_exon ex bs)"
  shows "fst n < snd n"
proof -
  obtain a b where n: "n = (a, b)" by (cases n)
  have "(a, b) \<in> set (zip (cut_points ex bs) (tl (cut_points ex bs)))"
    using assms(3) n by (simp add: split_exon_alt)
  from zip_tl_increasing[OF strict_sorted_cut_points[OF assms(1,2)] this] n show ?thesis by simp
qed

lemma boundaries_sorted: "sorted_wrt (<) (find_exon_boundaries ts)"
  by (simp add: find_exon_boundaries_def strict_sorted_iff)

lemma boundaries_sorted_le: "sorted (find_exon_boundaries ts)"
  by (simp add: find_exon_boundaries_def)

lemma exon_start_boundary:
  assumes "t \<in> set ts" "ex \<in> set (t_exons t)"
  shows "fst ex \<in> set (find_exon_boundaries ts)"
proof -
  have 1: "fst ex \<in> set ((\<lambda>(s, e). [s, e]) ex)" by (cases ex) simp
  have 2: "fst ex \<in> set (concat (map (\<lambda>(s, e). [s, e]) (t_exons t)))"
    unfolding set_concat set_map using 1 assms(2) by blast
  have "fst ex \<in> set (concat (map (\<lambda>t. concat (map (\<lambda>(s, e). [s, e]) (t_exons t))) ts))"
    unfolding set_concat set_map using 2 assms(1) by blast
  thus ?thesis by (simp only: find_exon_boundaries_def set_sort set_remdups)
qed

lemma split_exons_no_boundary_inside:
  assumes "n \<in> set (split_exons t (find_exon_boundaries ts))" "x \<in> set (find_exon_boundaries ts)"
  shows "\<not> (fst n < x \<and> x < snd n)"
proof -
  from assms(1) obtain ex where "n \<in> set (split_exon ex (find_exon_boundaries ts))"
    by (auto simp: split_exons_def)
  from split_exon_no_boundary_inside[OF boundaries_sorted_le this assms(2)] show ?thesis .
qed

lemma split_exons_positive:
  assumes "\<forall>ex\<in>set (t_exons t). fst ex < snd ex"
    "n \<in> set (split_exons t (find_exon_boundaries ts))"
  shows "fst n < snd n"
proof -
  from assms(2) obtain ex where ex: "ex \<in> set (t_exons t)"
    "n \<in> set (split_exon ex (find_exon_boundaries ts))"
    by (auto simp: split_exons_def)
  from split_exon_positive[OF boundaries_sorted _ ex(2)] assms(1) ex(1) show ?thesis by blast
qed

section \<open>Introns of a well-formed exon list\<close>

lemma gaps_start_after:
  "sorted_wrt (\<lambda>a b. snd a \<le> fst b) (a # es) \<Longrightarrow> \<forall>ex\<in>set (a # es). fst ex < snd ex
     \<Longrightarrow> g \<in> set (exon_gaps (a # es)) \<Longrightarrow> snd a \<le> fst g"
proof (induction es arbitrary: a)
  case Nil
  then show ?case by simp
next
  case (Cons b es)
  from Cons.prems(3) have "g = (snd a, fst b) \<or> g \<in> set (exon_gaps (b # es))" by simp
  thus ?case
  proof
    assume "g = (snd a, fst b)"
    thus ?thesis by simp
  next
    assume g: "g \<in> set (exon_gaps (b # es))"
    have "sorted_wrt (\<lambda>a b. snd a \<le> fst b) (b # es)" "\<forall>ex\<in>set (b # es). fst ex < snd ex"
      using Cons.prems(1,2) by simp_all
    from Cons.IH[OF this g] have "snd b \<le> fst g" .
    moreover have "snd a \<le> fst b" "fst b < snd b" using Cons.prems(1,2) by simp_all
    ultimately show ?thesis by linarith
  qed
qed

lemma gaps_overlap_at_most_one:
  assumes "sorted_wrt (\<lambda>a b. snd a \<le> fst b) es" "\<forall>ex\<in>set es. fst ex < snd ex"
    and "\<forall>ex\<in>set es. \<not> (fst n < fst ex \<and> fst ex < snd n)"
  shows "length (filter (\<lambda>g. fst g < snd n \<and> fst n < snd g) (exon_gaps es)) \<le> 1"
  using assms
proof (induction es rule: exon_gaps.induct)
  case (1 a b es)
  have s': "sorted_wrt (\<lambda>a b. snd a \<le> fst b) (b # es)" "\<forall>ex\<in>set (b # es). fst ex < snd ex"
    "\<forall>ex\<in>set (b # es). \<not> (fst n < fst ex \<and> fst ex < snd n)"
    using "1.prems" by simp_all
  note ih = "1.IH"[OF s']
  show ?case
  proof (cases "snd a < snd n \<and> fst n < fst b")
    case False
    hence "filter (\<lambda>g. fst g < snd n \<and> fst n < snd g) (exon_gaps (a # b # es))
         = filter (\<lambda>g. fst g < snd n \<and> fst n < snd g) (exon_gaps (b # es))"
      by auto
    then show ?thesis using ih by simp
  next
    case True
    have "\<not> (fst n < fst b \<and> fst b < snd n)" using "1.prems"(3) by simp
    hence ge: "snd n \<le> fst b" using True by simp
    have "\<forall>g\<in>set (exon_gaps (b # es)). \<not> fst g < snd n"
    proof
      fix g assume "g \<in> set (exon_gaps (b # es))"
      from gaps_start_after[OF s'(1,2) this] have "snd b \<le> fst g" .
      moreover have "fst b < snd b" using s'(2) by simp
      ultimately show "\<not> fst g < snd n" using ge by linarith
    qed
    hence "filter (\<lambda>g. fst g < snd n \<and> fst n < snd g) (exon_gaps (b # es)) = []"
      by (simp add: filter_empty_conv)
    then show ?thesis using True by simp
  qed
qed simp_all

lemma distinct_exon_gaps:
  assumes "sorted_wrt (\<lambda>a b. snd a \<le> fst b) es" "\<forall>ex\<in>set es. fst ex < snd ex"
  shows "distinct (exon_gaps es)"
  using assms
proof (induction es rule: exon_gaps.induct)
  case (1 a b es)
  have s': "sorted_wrt (\<lambda>a b. snd a \<le> fst b) (b # es)" "\<forall>ex\<in>set (b # es). fst ex < snd ex"
    using "1.prems" by simp_all
  have "(snd a, fst b) \<notin> set (exon_gaps (b # es))"
  proof
    assume "(snd a, fst b) \<in> set (exon_gaps (b # es))"
    from gaps_start_after[OF s' this] have "snd b \<le> snd a" by simp
    moreover have "snd a \<le> fst b" "fst b < snd b" using "1.prems" by simp_all
    ultimately show False by linarith
  qed
  thus ?case using "1.IH"[OF s'] by simp
qed simp_all

lemma length_exon_gaps: "es \<noteq> [] \<Longrightarrow> int (length (exon_gaps es)) = int (length es) - 1"
  by (induction es rule: exon_gaps.induct) simp_all

lemma distinct_intron_list:
  assumes "wf_exons (t_exons t)"
  shows "distinct (intron_list t)"
proof -
  have "distinct (exon_gaps (t_exons t))"
    using assms by (intro distinct_exon_gaps) (simp_all add: wf_exons_def)
  moreover have "inj_on (\<lambda>(s, e). (t_strand t, s, e)) (set (exon_gaps (t_exons t)))"
    by (auto simp: inj_on_def)
  ultimately show ?thesis by (simp add: intron_list_def iterintrons_def distinct_map)
qed

lemma length_intron_list:
  "wf_exons (t_exons t) \<Longrightarrow> int (length (intron_list t)) = int (length (t_exons t)) - 1"
  by (simp add: intron_list_def iterintrons_def length_exon_gaps wf_exons_def)

lemma introns_overlap_at_most_one:
  assumes "wf_exons (t_exons ref)" "ref \<in> set ts"
    and "n \<in> set (split_exons t (find_exon_boundaries ts))"
  shows "length (filter (overlaps n) (intron_list ref)) \<le> 1"
proof -
  have nb: "\<forall>ex\<in>set (t_exons ref). \<not> (fst n < fst ex \<and> fst ex < snd n)"
    using split_exons_no_boundary_inside[OF assms(3)] exon_start_boundary[OF assms(2)] by blast
  have "length (filter (\<lambda>g. fst g < snd n \<and> fst n < snd g) (exon_gaps (t_exons ref))) \<le> 1"
    using assms(1) nb by (intro gaps_overlap_at_most_one) (simp_all add: wf_exons_def)
  moreover have "filter (overlaps n) (intron_list ref)
      = map (\<lambda>(s, e). (t_strand ref, s, e))
          (filter (\<lambda>g. fst g < snd n \<and> fst n < snd g) (exon_gaps (t_exons ref)))"
    by (simp add: intron_list_def iterintrons_def filter_map o_def overlaps_def split_beta)
  ultimately show ?thesis by simp
qed


subsection \<open>The intronic buckets of an accumulator\<close>

lemma intronic_bucket_lengths:
  "length (concat (map (nodes_appended INTRONIC_SAME_STRAND) us))
   + length (concat (map (nodes_appended INTRONIC_OPP_STRAND) us))
   = length (filter is_intronic us)"
proof (induction us)
  case Nil
  show ?case by simp
next
  case (Cons u us)
  show ?case using Cons.IH by (cases u) auto
qed

lemma intronic_bucket_sets:
  "set (concat (map (nodes_appended INTRONIC_SAME_STRAND) us))
   \<union> set (concat (map (nodes_appended INTRONIC_OPP_STRAND) us))
   = node_of ` set (filter is_intronic us)"
proof (induction us)
  case Nil
  show ?case by simp
next
  case (Cons u us)
  show ?case using Cons.IH by (cases u) auto
qed

lemma vals_of_concat: "vals_of r (concat xss) = concat (map (vals_of r) xss)"
  by (induction xss) simp_all

lemma vals_of_map:
  "vals_of r (map f xs) = map (\<lambda>x. snd (f x)) (filter (\<lambda>x. fst (f x) = r) xs)"
  by (induction xs) simp_all

lemma filter_intronic_node_updates:
  "filter is_intronic (vals_of r (node_updates cmp_strand t refs bs n))
   = map (\<lambda>kv. snd (intronic_update cmp_strand t n kv)) (intronic_hits refs r n)"
proof -
  have 1: "filter is_intronic (vals_of r (map (exact_update cmp_strand t n) xs)) = []" for xs
    by (induction xs) (simp_all add: exact_update_def)
  have 2: "filter is_intronic (vals_of r (map (intronic_update cmp_strand t n) ys))
      = map (\<lambda>kv. snd (intronic_update cmp_strand t n kv))
          (filter (\<lambda>kv. attr_transcript_id (snd kv) = r) ys)" for ys
    by (induction ys) (simp_all add: intronic_update_def)
  show ?thesis
    unfolding node_updates_alt vals_of_simps(3) filter_append 1 2 intronic_hits_def
    by (simp add: conj_commute)
qed

lemma filter_intronic_intron_updates:
  "filter is_intronic (vals_of r (intron_updates t refs)) = []"
proof -
  have "\<forall>u\<in>set (intron_updates t refs). \<not> is_intronic (snd u)"
    by (auto simp: intron_updates_alt)
  thus ?thesis by (auto simp: filter_empty_conv vals_of_def)
qed

lemma filter_intronic_splicing_updates:
  "filter is_intronic (vals_of r (splicing_updates t refs)) = []"
proof -
  have "\<forall>u\<in>set (splicing_updates t refs). \<not> is_intronic (snd u)"
    by (auto simp: splicing_updates_alt)
  thus ?thesis by (auto simp: filter_empty_conv vals_of_def)
qed

lemma filter_intronic_all_updates:
  "filter is_intronic (vals_of r (all_updates cmp_strand t refs bs))
   = concat (map (\<lambda>n. map (\<lambda>kv. snd (intronic_update cmp_strand t n kv)) (intronic_hits refs r n))
       (split_exons t bs))"
  by (simp add: all_updates_def vals_of_concat filter_concat o_def
      filter_intronic_node_updates filter_intronic_intron_updates
      filter_intronic_splicing_updates)

lemma node_of_intronic_update [simp]: "node_of (snd (intronic_update cmp_strand t n kv)) = n"
  by (simp add: intronic_update_def)

lemma UN_const_image:
  "(\<Union>n\<in>A. (\<lambda>kv. n) ` set (f n)) = {n \<in> A. f n \<noteq> []}"
proof (intro set_eqI iffI)
  fix x assume "x \<in> (\<Union>n\<in>A. (\<lambda>kv. n) ` set (f n))"
  then obtain n kv where "n \<in> A" "kv \<in> set (f n)" "x = n" by blast
  thus "x \<in> {n \<in> A. f n \<noteq> []}" by auto
next
  fix x assume "x \<in> {n \<in> A. f n \<noteq> []}"
  hence "x \<in> A" "f x \<noteq> []" by simp_all
  then obtain kv where "kv \<in> set (f x)" by (cases "f x") auto
  thus "x \<in> (\<Union>n\<in>A. (\<lambda>kv. n) ` set (f n))" using \<open>x \<in> A\<close> by blast
qed

lemma matches_entry_intronic:
  assumes "(r, m) \<in> set (matches_of cmp_strand t refs bs)"
  shows "length (m_nodes m INTRONIC_SAME_STRAND) + length (m_nodes m INTRONIC_OPP_STRAND)
         = sum_list (map (\<lambda>n. length (intronic_hits refs r n)) (split_exons t bs))"
    and "set (m_nodes m INTRONIC_SAME_STRAND) \<union> set (m_nodes m INTRONIC_OPP_STRAND)
         = {n \<in> set (split_exons t bs). intronic_hits refs r n \<noteq> []}"
proof -
  let ?U = "vals_of r (all_updates cmp_strand t refs bs)"
  have m: "m = apply_updates Match_init ?U" using assms by (rule matches_entry)
  have b: "m_nodes m c = concat (map (nodes_appended c) ?U)" for c
    by (simp add: m m_nodes_apply_updates Match_init_def)
  show "length (m_nodes m INTRONIC_SAME_STRAND) + length (m_nodes m INTRONIC_OPP_STRAND)
         = sum_list (map (\<lambda>n. length (intronic_hits refs r n)) (split_exons t bs))"
    unfolding b intronic_bucket_lengths filter_intronic_all_updates
    by (simp add: length_concat o_def)
  show "set (m_nodes m INTRONIC_SAME_STRAND) \<union> set (m_nodes m INTRONIC_OPP_STRAND)
         = {n \<in> set (split_exons t bs). intronic_hits refs r n \<noteq> []}"
  proof -
    have "node_of ` set (concat (map (\<lambda>n. map (\<lambda>kv. snd (intronic_update cmp_strand t n kv))
              (intronic_hits refs r n)) (split_exons t bs)))
        = (\<Union>n\<in>set (split_exons t bs). (\<lambda>kv. n) ` set (intronic_hits refs r n))"
      by (simp add: image_UN image_image)
    thus ?thesis
      unfolding b intronic_bucket_sets filter_intronic_all_updates UN_const_image .
  qed
qed

lemma length_filter_mset: "mset xs = mset ys \<Longrightarrow> length (filter P xs) = length (filter P ys)"
  by (metis mset_filter size_mset)

lemma length_filter_intron_dict:
  "length (filter P (flatten (ref_intron_dict refs))) = length (filter P (intron_pairs refs))"
  by (rule length_filter_mset) (simp add: ref_intron_dict_alt mset_flatten_dict_of)

lemma length_filter_pairs:
  fixes refs :: "Transcript list"
  shows "length (filter (\<lambda>kv. Q (fst kv) \<and> attr_transcript_id (snd kv) = r)
             (concat (map (\<lambda>t. map (\<lambda>x. (x, t)) (f t)) refs)))
   = sum_list (map (\<lambda>t. if attr_transcript_id t = r then length (filter Q (f t)) else 0) refs)"
  by (induction refs) (simp_all add: filter_map o_def)

lemma sum_list_unique:
  fixes g :: "Transcript \<Rightarrow> nat"
  assumes "distinct (map attr_transcript_id refs)" "ref \<in> set refs"
  shows "sum_list (map (\<lambda>t. if attr_transcript_id t = attr_transcript_id ref then g t else 0) refs)
         = g ref"
  using assms
proof (induction refs)
  case Nil
  then show ?case by simp
next
  case (Cons a refs)
  show ?case
  proof (cases "a = ref")
    case True
    hence "\<forall>t\<in>set refs. attr_transcript_id t \<noteq> attr_transcript_id ref"
      using Cons.prems(1) by (force simp: image_iff)
    hence "sum_list (map (\<lambda>t. if attr_transcript_id t = attr_transcript_id ref then g t else 0) refs)
           = 0"
      by (induction refs) simp_all
    thus ?thesis using True by simp
  next
    case False
    hence r: "ref \<in> set refs" using Cons.prems(2) by simp
    hence "attr_transcript_id a \<noteq> attr_transcript_id ref" using Cons.prems(1) by force
    thus ?thesis using Cons.IH[OF _ r] Cons.prems(1) by simp
  qed
qed

lemma pairs_count_unique:
  fixes refs :: "Transcript list"
  assumes "distinct (map attr_transcript_id refs)" "ref \<in> set refs"
  shows "length (filter (\<lambda>kv. Q (fst kv) \<and> attr_transcript_id (snd kv) = attr_transcript_id ref)
             (concat (map (\<lambda>t. map (\<lambda>x. (x, t)) (f t)) refs)))
         = length (filter Q (f ref))"
  unfolding length_filter_pairs
  using sum_list_unique[OF assms, of "\<lambda>t. length (filter Q (f t))"] .

lemma intronic_hits_unique:
  assumes "distinct (map attr_transcript_id refs)" "ref \<in> set refs"
  shows "length (intronic_hits refs (attr_transcript_id ref) n)
         = length (filter (overlaps n) (intron_list ref))"
  unfolding intronic_hits_def length_filter_intron_dict intron_pairs_def
  using assms by (rule pairs_count_unique)

lemma sum_list_all_one:
  fixes k :: "'a \<Rightarrow> nat"
  assumes "\<forall>x\<in>set xs. k x \<le> 1"
  shows "sum_list (map k xs) = length xs \<longleftrightarrow> (\<forall>x\<in>set xs. k x \<noteq> 0)"
  using assms
proof (induction xs)
  case Nil
  show ?case by simp
next
  case (Cons x xs)
  have le: "sum_list (map k xs) \<le> length xs"
    using Cons.prems by (induction xs) (auto intro: add_mono)
  have kx: "k x = 0 \<or> k x = 1" using Cons.prems by (auto simp: le_Suc_eq)
  have ih: "sum_list (map k xs) = length xs \<longleftrightarrow> (\<forall>x\<in>set xs. k x \<noteq> 0)"
    using Cons.IH Cons.prems by simp
  from kx show ?case
  proof
    assume "k x = 0"
    thus ?thesis using le by simp
  next
    assume "k x = 1"
    thus ?thesis using ih by simp
  qed
qed

lemma matches_key_ref:
  assumes "(r, m) \<in> set (matches_of cmp_strand t refs bs)"
  shows "\<exists>ref\<in>set refs. attr_transcript_id ref = r"
proof -
  have "r \<in> fst ` set (matches_of cmp_strand t refs bs)" using assms by force
  thus ?thesis unfolding keys_matches_of by blast
qed

lemma intronic_all_iff:
  assumes "(r, m) \<in> set (matches_of cmp_strand t refs (find_exon_boundaries ts))"
    and "distinct (map attr_transcript_id refs)" and "set refs \<subseteq> set ts"
    and "\<forall>ref\<in>set refs. wf_exons (t_exons ref)"
  shows "length (m_nodes m INTRONIC_SAME_STRAND) + length (m_nodes m INTRONIC_OPP_STRAND)
           = length (split_exons t (find_exon_boundaries ts))
         \<longleftrightarrow> (\<forall>n\<in>set (split_exons t (find_exon_boundaries ts)).
               n \<in> set (m_nodes m INTRONIC_SAME_STRAND) \<union> set (m_nodes m INTRONIC_OPP_STRAND))"
proof -
  let ?bs = "find_exon_boundaries ts"
  from matches_key_ref[OF assms(1)] obtain ref where
    ref: "ref \<in> set refs" "attr_transcript_id ref = r" by blast
  have k: "length (intronic_hits refs r n) = length (filter (overlaps n) (intron_list ref))" for n
    using intronic_hits_unique[OF assms(2) ref(1)] ref(2) by simp
  have le: "\<forall>n\<in>set (split_exons t ?bs). length (intronic_hits refs r n) \<le> 1"
  proof
    fix n assume n: "n \<in> set (split_exons t ?bs)"
    have "wf_exons (t_exons ref)" "ref \<in> set ts" using assms(3,4) ref(1) by auto
    from introns_overlap_at_most_one[OF this n] show "length (intronic_hits refs r n) \<le> 1"
      by (simp only: k)
  qed
  have "length (m_nodes m INTRONIC_SAME_STRAND) + length (m_nodes m INTRONIC_OPP_STRAND)
           = length (split_exons t ?bs)
        \<longleftrightarrow> (\<forall>n\<in>set (split_exons t ?bs). length (intronic_hits refs r n) \<noteq> 0)"
    unfolding matches_entry_intronic(1)[OF assms(1)] using le by (rule sum_list_all_one)
  also have "\<dots> \<longleftrightarrow> (\<forall>n\<in>set (split_exons t ?bs).
               n \<in> set (m_nodes m INTRONIC_SAME_STRAND) \<union> set (m_nodes m INTRONIC_OPP_STRAND))"
    unfolding matches_entry_intronic(2)[OF assms(1)] by simp
  finally show ?thesis .
qed


subsection \<open>The category of a pair\<close>

lemma decide_category_Inr:
  assumes "decide_category m nodes = Inr c"
  shows "c = (if m_splicing m \<or> m_introns m \<noteq> [] \<or> node_bp (m_nodes m SAME_STRAND) > 0
              then SAME_STRAND
              else if node_bp (m_nodes m OPP_STRAND) > 0 then OPP_STRAND
              else if length (m_nodes m INTRONIC_SAME_STRAND)
                       + length (m_nodes m INTRONIC_OPP_STRAND) = length nodes
                   then (if m_nodes m INTRONIC_SAME_STRAND \<noteq> [] then INTRONIC_SAME_STRAND
                         else INTRONIC_OPP_STRAND)
                   else (if m_nodes m INTRONIC_SAME_STRAND \<noteq> [] then INTERLEAVING_SAME_STRAND
                         else INTERLEAVING_OPP_STRAND))"
  using assms by (simp add: decide_category_def Let_def split: if_splits)

lemma pair_category_count:
  assumes "stats_loop t refs nodes entries = Inr stats"
  shows "list_all2
     (\<lambda>entry ms.
        ref_transcript_id ms = fst entry \<and>
        category ms =
          (if shared_splicing ms \<or> shared_introns ms > 0 \<or> shared_same_strand_bp ms > 0
           then SAME_STRAND
           else if shared_opp_strand_bp ms > 0 then OPP_STRAND
           else if length (m_nodes (snd entry) INTRONIC_SAME_STRAND)
                     + length (m_nodes (snd entry) INTRONIC_OPP_STRAND) = length nodes
                then (if m_nodes (snd entry) INTRONIC_SAME_STRAND \<noteq> []
                      then INTRONIC_SAME_STRAND else INTRONIC_OPP_STRAND)
                else (if m_nodes (snd entry) INTRONIC_SAME_STRAND \<noteq> []
                      then INTERLEAVING_SAME_STRAND else INTERLEAVING_OPP_STRAND)))
     entries stats"
proof (rule list.rel_mono_strong[OF stats_loop_Inr[OF assms]])
  fix entry ms
  assume p: "pair_stats t refs nodes entry = Inr ms"
  obtain r m where rm: "entry = (r, m)" by (cases entry)
  from pair_stats_Inr[OF p[unfolded rm]] obtain ref c where
    d: "decide_category m nodes = Inr c"
    and ms: "ms = from_transcript t ref (node_bp (m_nodes m SAME_STRAND))
                  (node_bp (m_nodes m OPP_STRAND)) (int (length (m_introns m)))
                  (m_splicing m) c 0" by blast
  have f: "shared_splicing ms = m_splicing m" "shared_introns ms = int (length (m_introns m))"
    "shared_same_strand_bp ms = node_bp (m_nodes m SAME_STRAND)"
    "shared_opp_strand_bp ms = node_bp (m_nodes m OPP_STRAND)" "category ms = c"
    by (simp_all add: ms from_transcript_def)
  have cat: "category ms =
          (if shared_splicing ms \<or> shared_introns ms > 0 \<or> shared_same_strand_bp ms > 0
           then SAME_STRAND
           else if shared_opp_strand_bp ms > 0 then OPP_STRAND
           else if length (m_nodes m INTRONIC_SAME_STRAND)
                     + length (m_nodes m INTRONIC_OPP_STRAND) = length nodes
                then (if m_nodes m INTRONIC_SAME_STRAND \<noteq> []
                      then INTRONIC_SAME_STRAND else INTRONIC_OPP_STRAND)
                else (if m_nodes m INTRONIC_SAME_STRAND \<noteq> []
                      then INTERLEAVING_SAME_STRAND else INTERLEAVING_OPP_STRAND))"
    unfolding f using decide_category_Inr[OF d] by simp
  have rid: "ref_transcript_id ms = r" using pair_stats_ref_id[OF p] by (simp add: rm)
  show "ref_transcript_id ms = fst entry \<and>
        category ms =
          (if shared_splicing ms \<or> shared_introns ms > 0 \<or> shared_same_strand_bp ms > 0
           then SAME_STRAND
           else if shared_opp_strand_bp ms > 0 then OPP_STRAND
           else if length (m_nodes (snd entry) INTRONIC_SAME_STRAND)
                     + length (m_nodes (snd entry) INTRONIC_OPP_STRAND) = length nodes
                then (if m_nodes (snd entry) INTRONIC_SAME_STRAND \<noteq> []
                      then INTRONIC_SAME_STRAND else INTRONIC_OPP_STRAND)
                else (if m_nodes (snd entry) INTRONIC_SAME_STRAND \<noteq> []
                      then INTERLEAVING_SAME_STRAND else INTERLEAVING_OPP_STRAND))"
    unfolding rm fst_conv snd_conv using rid cat by (rule conjI)
qed

lemma pair_category_cover:
  assumes "stats_loop t (filter attr_ref transcripts)
             (split_exons t (find_exon_boundaries transcripts))
             (matches_of cmp_strand t (filter attr_ref transcripts)
                (find_exon_boundaries transcripts)) = Inr stats"
    and "distinct (map attr_transcript_id (filter attr_ref transcripts))"
    and "\<forall>ref\<in>set (filter attr_ref transcripts). wf_exons (t_exons ref)"
  shows "list_all2
     (\<lambda>entry ms.
        ref_transcript_id ms = fst entry \<and>
        category ms =
          (if shared_splicing ms \<or> shared_introns ms > 0 \<or> shared_same_strand_bp ms > 0
           then SAME_STRAND
           else if shared_opp_strand_bp ms > 0 then OPP_STRAND
           else if (\<forall>n\<in>set (split_exons t (find_exon_boundaries transcripts)).
                      n \<in> set (m_nodes (snd entry) INTRONIC_SAME_STRAND)
                          \<union> set (m_nodes (snd entry) INTRONIC_OPP_STRAND))
                then (if m_nodes (snd entry) INTRONIC_SAME_STRAND \<noteq> []
                      then INTRONIC_SAME_STRAND else INTRONIC_OPP_STRAND)
                else (if m_nodes (snd entry) INTRONIC_SAME_STRAND \<noteq> []
                      then INTERLEAVING_SAME_STRAND else INTERLEAVING_OPP_STRAND)))
     (matches_of cmp_strand t (filter attr_ref transcripts) (find_exon_boundaries transcripts))
     stats"
proof -
  let ?refs = "filter attr_ref transcripts" and ?bs = "find_exon_boundaries transcripts"
  let ?nodes = "split_exons t ?bs"
  have sub: "set ?refs \<subseteq> set transcripts" by auto
  show ?thesis
  proof (rule list.rel_mono_strong[OF stats_loop_Inr[OF assms(1)]])
    fix entry ms
    assume e: "entry \<in> set (matches_of cmp_strand t ?refs ?bs)"
      and p: "pair_stats t ?refs ?nodes entry = Inr ms"
    obtain r m where rm: "entry = (r, m)" by (cases entry)
    from pair_stats_Inr[OF p[unfolded rm]] obtain ref c where
      d: "decide_category m ?nodes = Inr c"
      and ms: "ms = from_transcript t ref (node_bp (m_nodes m SAME_STRAND))
                    (node_bp (m_nodes m OPP_STRAND)) (int (length (m_introns m)))
                    (m_splicing m) c 0" by blast
    have f: "shared_splicing ms = m_splicing m" "shared_introns ms = int (length (m_introns m))"
      "shared_same_strand_bp ms = node_bp (m_nodes m SAME_STRAND)"
      "shared_opp_strand_bp ms = node_bp (m_nodes m OPP_STRAND)" "category ms = c"
      by (simp_all add: ms from_transcript_def)
    have iff: "length (m_nodes m INTRONIC_SAME_STRAND) + length (m_nodes m INTRONIC_OPP_STRAND)
                 = length ?nodes
               \<longleftrightarrow> (\<forall>n\<in>set ?nodes. n \<in> set (m_nodes m INTRONIC_SAME_STRAND)
                                        \<union> set (m_nodes m INTRONIC_OPP_STRAND))"
      using e[unfolded rm] assms(2) sub assms(3) by (rule intronic_all_iff)
    have cat: "category ms =
          (if shared_splicing ms \<or> shared_introns ms > 0 \<or> shared_same_strand_bp ms > 0
           then SAME_STRAND
           else if shared_opp_strand_bp ms > 0 then OPP_STRAND
           else if (\<forall>n\<in>set ?nodes. n \<in> set (m_nodes m INTRONIC_SAME_STRAND)
                                    \<union> set (m_nodes m INTRONIC_OPP_STRAND))
                then (if m_nodes m INTRONIC_SAME_STRAND \<noteq> []
                      then INTRONIC_SAME_STRAND else INTRONIC_OPP_STRAND)
                else (if m_nodes m INTRONIC_SAME_STRAND \<noteq> []
                      then INTERLEAVING_SAME_STRAND else INTERLEAVING_OPP_STRAND))"
      unfolding f iff[symmetric] using decide_category_Inr[OF d] by simp
    have rid: "ref_transcript_id ms = r" using pair_stats_ref_id[OF p] by (simp add: rm)
    show "ref_transcript_id ms = fst entry \<and>
        category ms =
          (if shared_splicing ms \<or> shared_introns ms > 0 \<or> shared_same_strand_bp ms > 0
           then SAME_STRAND
           else if shared_opp_strand_bp ms > 0 then OPP_STRAND
           else if (\<forall>n\<in>set ?nodes. n \<in> set (m_nodes (snd entry) INTRONIC_SAME_STRAND)
                          \<union> set (m_nodes (snd entry) INTRONIC_OPP_STRAND))
                then (if m_nodes (snd entry) INTRONIC_SAME_STRAND \<noteq> []
                      then INTRONIC_SAME_STRAND else INTRONIC_OPP_STRAND)
                else (if m_nodes (snd entry) INTRONIC_SAME_STRAND \<noteq> []
                      then INTERLEAVING_SAME_STRAND else INTERLEAVING_OPP_STRAND))"
      unfolding rm fst_conv snd_conv using rid cat by (rule conjI)
  qed
qed



subsection \<open>The branch without exonic overlap\<close>

lemma node_update_shape:
  assumes "(r, NodesAppend c n) \<in> set (all_updates cmp_strand t refs bs)"
  shows "n \<in> set (split_exons t bs)
         \<and> c \<in> {SAME_STRAND, OPP_STRAND, INTRONIC_SAME_STRAND, INTRONIC_OPP_STRAND}"
proof -
  have "(r, NodesAppend c n) \<notin> set (intron_updates t refs)"
    by (auto simp: intron_updates_alt)
  moreover have "(r, NodesAppend c n) \<notin> set (splicing_updates t refs)"
    by (auto simp: splicing_updates_alt)
  ultimately obtain n' where n': "n' \<in> set (split_exons t bs)"
    "(r, NodesAppend c n) \<in> set (node_updates cmp_strand t refs bs n')"
    using assms by (auto simp: all_updates_def)
  from n'(2) have "n = n' \<and> c \<in> {SAME_STRAND, OPP_STRAND, INTRONIC_SAME_STRAND, INTRONIC_OPP_STRAND}"
    by (auto simp: node_updates_alt exact_update_def intronic_update_def split: if_splits)
  thus ?thesis using n'(1) by simp
qed

lemma bucket_member:
  "n \<in> set (concat (map (nodes_appended c) us)) \<longleftrightarrow> NodesAppend c n \<in> set us"
proof (induction us)
  case Nil
  show ?case by simp
next
  case (Cons u us)
  show ?case using Cons.IH by (cases u) auto
qed

lemma introns_member:
  "i \<in> set (concat (map introns_appended us)) \<longleftrightarrow> IntronsAppend i \<in> set us"
proof (induction us)
  case Nil
  show ?case by simp
next
  case (Cons u us)
  show ?case using Cons.IH by (cases u) auto
qed

lemma matches_entry_fields:
  assumes "(r, m) \<in> set (matches_of cmp_strand t refs bs)"
  shows "n \<in> set (m_nodes m c) \<longleftrightarrow> (r, NodesAppend c n) \<in> set (all_updates cmp_strand t refs bs)"
    and "i \<in> set (m_introns m) \<longleftrightarrow> (r, IntronsAppend i) \<in> set (all_updates cmp_strand t refs bs)"
    and "m_splicing m \<longleftrightarrow> (r, SplicingTrue) \<in> set (all_updates cmp_strand t refs bs)"
    and "\<exists>u. (r, u) \<in> set (all_updates cmp_strand t refs bs)"
proof -
  let ?U = "vals_of r (all_updates cmp_strand t refs bs)"
  have m: "m = apply_updates Match_init ?U" using assms by (rule matches_entry)
  have mn: "m_nodes m c = concat (map (nodes_appended c) ?U)"
    by (simp add: m m_nodes_apply_updates Match_init_def)
  have mi: "m_introns m = concat (map introns_appended ?U)"
    by (simp add: m m_introns_apply_updates Match_init_def)
  show "n \<in> set (m_nodes m c) \<longleftrightarrow> (r, NodesAppend c n) \<in> set (all_updates cmp_strand t refs bs)"
    by (simp only: mn bucket_member set_vals_of mem_Collect_eq)
  show "i \<in> set (m_introns m) \<longleftrightarrow> (r, IntronsAppend i) \<in> set (all_updates cmp_strand t refs bs)"
    by (simp only: mi introns_member set_vals_of mem_Collect_eq)
  show "m_splicing m \<longleftrightarrow> (r, SplicingTrue) \<in> set (all_updates cmp_strand t refs bs)"
    by (simp add: m m_splicing_apply_updates Match_init_def set_vals_of)
  have "r \<in> fst ` set (matches_of cmp_strand t refs bs)" using assms by force
  hence "r \<in> fst ` set (all_updates cmp_strand t refs bs)"
    by (simp add: matches_of_def keys_foldl)
  thus "\<exists>u. (r, u) \<in> set (all_updates cmp_strand t refs bs)" by auto
qed

lemma node_bp_positive:
  "ns \<noteq> [] \<Longrightarrow> \<forall>n\<in>set ns. fst n < snd n \<Longrightarrow> 0 < node_bp ns"
proof (induction ns)
  case Nil
  then show ?case by simp
next
  case (Cons n ns)
  show ?case
  proof (cases "ns = []")
    case True
    then show ?thesis using Cons.prems by (simp add: node_bp_def)
  next
    case False
    hence "0 < node_bp ns" using Cons by simp
    thus ?thesis using Cons.prems by (simp add: node_bp_def)
  qed
qed

lemma scan_accumulator_intronic:
  assumes e: "(r, m) \<in> set (matches_of cmp_strand t refs (find_exon_boundaries ts))"
    and pos: "\<forall>ex\<in>set (t_exons t). fst ex < snd ex"
    and b1: "\<not> (m_splicing m \<or> length (m_introns m) > 0 \<or> node_bp (m_nodes m SAME_STRAND) > 0)"
    and b2: "\<not> node_bp (m_nodes m OPP_STRAND) > 0"
  shows "m_nodes m SAME_STRAND = [] \<and> m_nodes m OPP_STRAND = []
         \<and> 0 < length (m_nodes m INTRONIC_SAME_STRAND) + length (m_nodes m INTRONIC_OPP_STRAND)"
proof -
  let ?bs = "find_exon_boundaries ts"
  note f = matches_entry_fields[OF e]
  have nodes_pos: "\<forall>n\<in>set (m_nodes m c). fst n < snd n" for c
  proof
    fix n assume "n \<in> set (m_nodes m c)"
    hence "n \<in> set (split_exons t ?bs)" using f(1) node_update_shape by blast
    thus "fst n < snd n" using pos by (intro split_exons_positive)
  qed
  have same: "m_nodes m SAME_STRAND = []"
    using node_bp_positive[OF _ nodes_pos, of SAME_STRAND] b1 by blast
  have opp: "m_nodes m OPP_STRAND = []"
    using node_bp_positive[OF _ nodes_pos, of OPP_STRAND] b2 by blast
  from f(4) obtain u where u: "(r, u) \<in> set (all_updates cmp_strand t refs ?bs)" by blast
  have "m_nodes m INTRONIC_SAME_STRAND \<noteq> [] \<or> m_nodes m INTRONIC_OPP_STRAND \<noteq> []"
  proof (cases u)
    case (NodesAppend c n)
    hence in_b: "n \<in> set (m_nodes m c)" using u f(1) by simp
    have "c \<in> {SAME_STRAND, OPP_STRAND, INTRONIC_SAME_STRAND, INTRONIC_OPP_STRAND}"
      using node_update_shape u NodesAppend by blast
    thus ?thesis using in_b same opp by auto
  next
    case (IntronsAppend i)
    hence "i \<in> set (m_introns m)" using u f(2) by simp
    thus ?thesis using b1 by auto
  next
    case SplicingTrue
    hence "m_splicing m" using u f(3) by simp
    thus ?thesis using b1 by simp
  qed
  thus ?thesis using same opp by auto
qed

lemma scan_accumulator_nonempty:
  assumes e: "(r, m) \<in> set (matches_of cmp_strand t refs (find_exon_boundaries ts))"
    and b1: "\<not> (m_splicing m \<or> length (m_introns m) > 0 \<or> node_bp (m_nodes m SAME_STRAND) > 0)"
    and same: "m_nodes m SAME_STRAND = []" and opp: "m_nodes m OPP_STRAND = []"
  shows "0 < length (m_nodes m INTRONIC_SAME_STRAND) + length (m_nodes m INTRONIC_OPP_STRAND)"
proof -
  let ?bs = "find_exon_boundaries ts"
  note f = matches_entry_fields[OF e]
  from f(4) obtain u where u: "(r, u) \<in> set (all_updates cmp_strand t refs ?bs)" by blast
  have "m_nodes m INTRONIC_SAME_STRAND \<noteq> [] \<or> m_nodes m INTRONIC_OPP_STRAND \<noteq> []"
  proof (cases u)
    case (NodesAppend c n)
    hence in_b: "n \<in> set (m_nodes m c)" using u f(1) by simp
    have "c \<in> {SAME_STRAND, OPP_STRAND, INTRONIC_SAME_STRAND, INTRONIC_OPP_STRAND}"
      using node_update_shape u NodesAppend by blast
    thus ?thesis using in_b same opp by auto
  next
    case (IntronsAppend i)
    hence "i \<in> set (m_introns m)" using u f(2) by simp
    thus ?thesis using b1 by auto
  next
    case SplicingTrue
    hence "m_splicing m" using u f(3) by simp
    thus ?thesis using b1 by simp
  qed
  thus ?thesis by auto
qed



subsection \<open>Shared introns against the intron counts\<close>

lemma no_introns_appended:
  "\<forall>u\<in>set us. \<forall>i. u \<noteq> IntronsAppend i \<Longrightarrow> concat (map introns_appended us) = []"
proof (induction us)
  case Nil
  show ?case by simp
next
  case (Cons u us)
  thus ?case by (cases u) auto
qed

lemma all_introns_appended:
  "\<forall>u\<in>set us. \<exists>i. u = IntronsAppend i \<Longrightarrow> length (concat (map introns_appended us)) = length us"
proof (induction us)
  case Nil
  show ?case by simp
next
  case (Cons u us)
  thus ?case by (cases u) auto
qed

lemma set_vals_of_subset: "u \<in> set (vals_of r xs) \<Longrightarrow> (r, u) \<in> set xs"
  by (simp add: set_vals_of)

lemma length_shared_introns:
  assumes "(r, m) \<in> set (matches_of cmp_strand t refs bs)"
  shows "length (m_introns m) = length (vals_of r (intron_updates t refs))"
proof -
  let ?N = "concat (map (node_updates cmp_strand t refs bs) (split_exons t bs))"
  have m: "m = apply_updates Match_init (vals_of r (all_updates cmp_strand t refs bs))"
    using assms by (rule matches_entry)
  have mi: "m_introns m = concat (map introns_appended (vals_of r ?N))
       @ concat (map introns_appended (vals_of r (intron_updates t refs)))
       @ concat (map introns_appended (vals_of r (splicing_updates t refs)))"
    by (simp add: m m_introns_apply_updates Match_init_def all_updates_def)
  have 1: "concat (map introns_appended (vals_of r ?N)) = []"
  proof (rule no_introns_appended, intro ballI allI notI)
    fix u i assume "u \<in> set (vals_of r ?N)" "u = IntronsAppend i"
    hence "(r, IntronsAppend i) \<in> set ?N" by (simp add: set_vals_of)
    thus False by (auto simp: node_updates_alt exact_update_def intronic_update_def)
  qed
  have 3: "concat (map introns_appended (vals_of r (splicing_updates t refs))) = []"
  proof (rule no_introns_appended, intro ballI allI notI)
    fix u i assume "u \<in> set (vals_of r (splicing_updates t refs))" "u = IntronsAppend i"
    hence "(r, IntronsAppend i) \<in> set (splicing_updates t refs)" by (simp add: set_vals_of)
    thus False by (auto simp: splicing_updates_alt split: if_splits)
  qed
  have 2: "length (concat (map introns_appended (vals_of r (intron_updates t refs))))
           = length (vals_of r (intron_updates t refs))"
  proof (rule all_introns_appended, intro ballI)
    fix u assume "u \<in> set (vals_of r (intron_updates t refs))"
    hence "(r, u) \<in> set (intron_updates t refs)" by (simp add: set_vals_of)
    thus "\<exists>i. u = IntronsAppend i" by (auto simp: intron_updates_alt)
  qed
  show ?thesis by (simp add: mi 1 2 3)
qed

lemma length_vals_intron_updates:
  "length (vals_of r (intron_updates t refs))
   = sum_list (map (\<lambda>i. length (filter (\<lambda>kv. fst kv = i \<and> attr_transcript_id (snd kv) = r)
                                  (intron_pairs refs))) (intron_list t))"
proof -
  have "length (vals_of r (map (\<lambda>ref. (attr_transcript_id ref, IntronsAppend i)) xs))
        = length (filter (\<lambda>ref. attr_transcript_id ref = r) xs)" for i and xs :: "Transcript list"
    by (simp add: vals_of_map)
  moreover have "length (filter (\<lambda>ref. attr_transcript_id ref = r) (vals_of i ps))
        = length (filter (\<lambda>kv. fst kv = i \<and> attr_transcript_id (snd kv) = r) ps)"
    for i and ps :: "(intron \<times> Transcript) list"
    by (induction ps) simp_all
  ultimately show ?thesis
    by (simp add: intron_updates_alt vals_of_concat length_concat o_def)
qed

lemma length_filter_eq_distinct:
  "distinct xs \<Longrightarrow> length (filter (\<lambda>x. x = i) xs) = (if i \<in> set xs then 1 else 0)"
  by (induction xs) auto

lemma sum_list_indicator:
  "sum_list (map (\<lambda>i. if i \<in> S then 1 else (0::nat)) xs) = length (filter (\<lambda>i. i \<in> S) xs)"
  by (induction xs) simp_all

lemma length_filter_mem_le:
  assumes "distinct xs"
  shows "length (filter (\<lambda>i. i \<in> set ys) xs) \<le> length ys"
proof -
  have "distinct (filter (\<lambda>i. i \<in> set ys) xs)" using assms by simp
  hence "length (filter (\<lambda>i. i \<in> set ys) xs) = card (set (filter (\<lambda>i. i \<in> set ys) xs))"
    by (rule distinct_card[symmetric])
  also have "\<dots> \<le> card (set ys)" by (rule card_mono) auto
  also have "\<dots> \<le> length ys" by (rule card_length)
  finally show ?thesis .
qed

lemma shared_introns_count:
  assumes e: "(r, m) \<in> set (matches_of cmp_strand t refs bs)"
    and d: "distinct (map attr_transcript_id refs)"
    and ref: "ref \<in> set refs" "attr_transcript_id ref = r"
    and wf: "wf_exons (t_exons ref)"
  shows "length (m_introns m) = length (filter (\<lambda>i. i \<in> set (intron_list ref)) (intron_list t))"
proof -
  have c: "length (filter (\<lambda>kv. fst kv = i \<and> attr_transcript_id (snd kv) = r) (intron_pairs refs))
           = (if i \<in> set (intron_list ref) then 1 else 0)" for i
  proof -
    have "length (filter (\<lambda>kv. (\<lambda>x. x = i) (fst kv)
                \<and> attr_transcript_id (snd kv) = attr_transcript_id ref) (intron_pairs refs))
          = length (filter (\<lambda>x. x = i) (intron_list ref))"
      unfolding intron_pairs_def using d ref(1) by (rule pairs_count_unique)
    thus ?thesis
      using length_filter_eq_distinct[OF distinct_intron_list[OF wf], of i] ref(2) by simp
  qed
  show ?thesis
    unfolding length_shared_introns[OF e] length_vals_intron_updates c sum_list_indicator ..
qed

text \<open>
  Claim C9, amended. When the reference ids of the locus are distinct and the exons
  of every transcript of the locus are well formed, every record that the
  classifier loop of \<open>compare_locus\<close> creates for a test transcript of the locus
  has, if \<open>num_introns + ref_num_introns\<close> is not zero, fewer shared introns
  than that total, so the divisor of \<open>intron_frac\<close> is not zero and the
  division returns a value.
\<close>

theorem shared_introns_below_total:
  assumes "stats_loop t (filter attr_ref transcripts)
             (split_exons t (find_exon_boundaries transcripts))
             (matches_of cmp_strand t (filter attr_ref transcripts)
                (find_exon_boundaries transcripts)) = Inr stats"
    and "distinct (map attr_transcript_id (filter attr_ref transcripts))"
    and "\<forall>x\<in>set transcripts. wf_exons (t_exons x)"
    and "t \<in> set transcripts"
  shows "\<forall>ms\<in>set stats.
           (num_introns ms + ref_num_introns ms \<noteq> 0 \<longrightarrow>
              shared_introns ms < num_introns ms + ref_num_introns ms
              \<and> num_introns ms + ref_num_introns ms - shared_introns ms \<noteq> 0)
           \<and> (\<exists>q. intron_frac fdiv ms = Inr q)"
proof
  let ?refs = "filter attr_ref transcripts" and ?bs = "find_exon_boundaries transcripts"
  fix ms assume "ms \<in> set stats"
  from list_all2_in_set2[OF stats_loop_Inr[OF assms(1)] this] obtain entry where
    e: "entry \<in> set (matches_of cmp_strand t ?refs ?bs)"
    and p: "pair_stats t ?refs (split_exons t ?bs) entry = Inr ms" by blast
  obtain r m where rm: "entry = (r, m)" by (cases entry)
  from pair_stats_Inr[OF p[unfolded rm]] obtain ref c where
    rd: "ref_dict ?refs r = Some ref"
    and ms: "ms = from_transcript t ref (node_bp (m_nodes m SAME_STRAND))
                    (node_bp (m_nodes m OPP_STRAND)) (int (length (m_introns m)))
                    (m_splicing m) c 0" by blast
  have ref: "ref \<in> set ?refs" "attr_transcript_id ref = r" using ref_dict_Some[OF rd] by simp_all
  have wfr: "wf_exons (t_exons ref)" and wft: "wf_exons (t_exons t)"
    using assms(3,4) ref(1) by auto
  let ?s = "length (filter (\<lambda>i. i \<in> set (intron_list ref)) (intron_list t))"
  have sh: "shared_introns ms = int ?s"
    using shared_introns_count[OF e[unfolded rm] assms(2) ref wfr]
    by (simp add: ms from_transcript_def)
  have nt: "num_introns ms = int (length (intron_list t))"
    by (simp add: ms from_transcript_def length_intron_list[OF wft])
  have nr: "ref_num_introns ms = int (length (intron_list ref))"
    by (simp add: ms from_transcript_def length_intron_list[OF wfr])
  have le1: "?s \<le> length (intron_list t)" by (rule length_filter_le)
  have le2: "?s \<le> length (intron_list ref)"
    using distinct_intron_list[OF wft] by (rule length_filter_mem_le)
  have lt: "num_introns ms + ref_num_introns ms \<noteq> 0 \<longrightarrow>
              shared_introns ms < num_introns ms + ref_num_introns ms
              \<and> num_introns ms + ref_num_introns ms - shared_introns ms \<noteq> 0"
    unfolding sh nt nr using le1 le2 by linarith
  hence "\<exists>q. intron_frac fdiv ms = Inr q"
    by (auto simp: intron_frac_def float_div_def Let_def)
  with lt show "(num_introns ms + ref_num_introns ms \<noteq> 0 \<longrightarrow>
              shared_introns ms < num_introns ms + ref_num_introns ms
              \<and> num_introns ms + ref_num_introns ms - shared_introns ms \<noteq> 0)
           \<and> (\<exists>q. intron_frac fdiv ms = Inr q)" by (rule conjI)
qed


subsection \<open>The claims on the sample loci\<close>

lemma ex2_refs: "filter attr_ref ex_locus2 = [ex_ref1]"
  by (simp add: ex_locus2_def ex_ref1_def ex_inner_def)

lemma ex1_refs: "filter attr_ref ex_locus = [ex_ref1, ex_ref2]"
  by (simp add: ex_locus_def ex_ref1_def ex_ref2_def ex_test_def)

lemma ex_wf: "wf_exons (t_exons ex_ref1)" "wf_exons (t_exons ex_ref2)" "wf_exons (t_exons ex_test)"
  by (simp_all add: wf_exons_def ex_ref1_def ex_ref2_def ex_test_def)


text \<open>
  Claim C9, as stated, fails: with a reference transcript id that occurs twice in
  the locus, the shared intron is counted twice, the record has two shared introns
  against a total of two, the divisor is zero, and \<open>compare_locus\<close> ends with
  ZeroDivisionError.
\<close>

theorem shared_introns_below_total_counterexample:
  "(case stats_loop ex_twin (filter attr_ref ex_locus_dup2)
           (split_exons ex_twin (find_exon_boundaries ex_locus_dup2))
           (matches_of ex_cmp ex_twin (filter attr_ref ex_locus_dup2)
              (find_exon_boundaries ex_locus_dup2)) of
      Inl e \<Rightarrow> False
    | Inr stats \<Rightarrow>
        map (\<lambda>ms. (shared_introns ms, num_introns ms, ref_num_introns ms,
                   intron_frac ex_fdiv ms)) stats
          = [(2, 1, 1, Inl ZeroDivisionError)])
   \<and> fst (compare_locus ex_fdiv ex_cmp ex_heap 0 ex_locus_dup2) = []
   \<and> snd (compare_locus ex_fdiv ex_cmp ex_heap 0 ex_locus_dup2) = Some ZeroDivisionError"
  by code_simp


text \<open>
  The amended claim C9 on the sample locus of two references and one test transcript.
\<close>

theorem shared_introns_below_total_witness:
  "distinct (map attr_transcript_id (filter attr_ref ex_locus))
   \<and> wf_exons (t_exons ex_ref1) \<and> wf_exons (t_exons ex_ref2) \<and> wf_exons (t_exons ex_test)
   \<and> (\<exists>stats.
         stats_loop ex_test (filter attr_ref ex_locus)
           (split_exons ex_test (find_exon_boundaries ex_locus))
           (matches_of ex_cmp ex_test (filter attr_ref ex_locus)
              (find_exon_boundaries ex_locus)) = Inr stats
         \<and> map (\<lambda>ms. (shared_introns ms, num_introns ms, ref_num_introns ms)) stats
             = [(1, 2, 1), (0, 2, 0)]
         \<and> (\<forall>ms\<in>set stats.
           (num_introns ms + ref_num_introns ms \<noteq> 0 \<longrightarrow>
              shared_introns ms < num_introns ms + ref_num_introns ms
              \<and> num_introns ms + ref_num_introns ms - shared_introns ms \<noteq> 0)
           \<and> (\<exists>q. intron_frac ex_fdiv ms = Inr q)))"
proof -
  have ev: "case stats_loop ex_test (filter attr_ref ex_locus)
           (split_exons ex_test (find_exon_boundaries ex_locus))
           (matches_of ex_cmp ex_test (filter attr_ref ex_locus)
              (find_exon_boundaries ex_locus)) of
          Inl e \<Rightarrow> False
        | Inr stats \<Rightarrow> map (\<lambda>ms. (shared_introns ms, num_introns ms, ref_num_introns ms)) stats
             = [(1, 2, 1), (0, 2, 0)]"
    by code_simp
  then obtain stats where
    s: "stats_loop ex_test (filter attr_ref ex_locus)
           (split_exons ex_test (find_exon_boundaries ex_locus))
           (matches_of ex_cmp ex_test (filter attr_ref ex_locus)
              (find_exon_boundaries ex_locus)) = Inr stats"
    and c: "map (\<lambda>ms. (shared_introns ms, num_introns ms, ref_num_introns ms)) stats
             = [(1, 2, 1), (0, 2, 0)]"
    by (auto split: sum.splits)
  have d: "distinct (map attr_transcript_id (filter attr_ref ex_locus))"
    by (simp add: ex1_refs ex_ref1_def ex_ref2_def)
  have w: "\<forall>x\<in>set ex_locus. wf_exons (t_exons x)"
    by (simp add: ex_locus_def ex_wf)
  have t: "ex_test \<in> set ex_locus" by (simp add: ex_locus_def)
  note r = shared_introns_below_total[OF s d w t, where fdiv = ex_fdiv]
  show ?thesis
    apply (intro conjI)
        apply (rule d)
       apply (rule ex_wf(1))
      apply (rule ex_wf(2))
     apply (rule ex_wf(3))
    apply (rule exI[of _ stats])
    apply (rule conjI)
     apply (rule s)
    apply (rule conjI)
     apply (rule c)
    apply (rule r)
    done
qed


end
